theory Spec2Isabelle
  imports Complex_Main "HOL-Library.Word" "HOL-Library.Log_Nat"
begin

unbundle bit_operations_syntax

section \<open>Monte-Carlo trade simulator: the engine of src/app/page.tsx\<close>

text \<open>
  The engine computes on JavaScript numbers (IEEE-754 doubles). In this development a
  finite number is an exact \<^typ>\<open>real\<close>: rounding and overflow of double arithmetic
  are not modelled, except in the generator state of \<open>mulberry32\<close>, where the
  rounding of an integer-valued double is written out. The reals have one zero: it stands
  for the positive zero of the doubles. Wherever the source can turn finite inputs into
  \<open>NaN\<close>, an infinity or \<open>undefined\<close> (a division by zero, a read outside an array), the
  value has an option type, and the text at its definition says what \<open>None\<close> stands for.
  The inputs whose non-finite values the source inspects (counts, seed) have the type
  \<open>jsnumber\<close>.
\<close>

subsection \<open>Numbers, array reads, exceptions\<close>

datatype jsnumber = Finite real | NaN | PosInfinity | NegInfinity

datatype error = RangeError | TypeError

text \<open>\<open>Number.isFinite\<close>\<close>

fun isFinite :: "jsnumber \<Rightarrow> bool" where
  "isFinite (Finite r) = True"
| "isFinite NaN = False"
| "isFinite PosInfinity = False"
| "isFinite NegInfinity = False"

text \<open>\<open>Math.trunc\<close> on a finite number: the integer part, rounded towards zero.\<close>

definition trunc_real :: "real \<Rightarrow> int" where
  "trunc_real r = (if 0 \<le> r then \<lfloor>r\<rfloor> else \<lceil>r\<rceil>)"

fun math_trunc :: "jsnumber \<Rightarrow> jsnumber" where
  "math_trunc (Finite r) = Finite (of_int (trunc_real r))"
| "math_trunc NaN = NaN"
| "math_trunc PosInfinity = PosInfinity"
| "math_trunc NegInfinity = NegInfinity"

text \<open>\<open>Math.max\<close> of two numbers: \<open>NaN\<close> if either argument is \<open>NaN\<close>.\<close>

fun math_max :: "jsnumber \<Rightarrow> jsnumber \<Rightarrow> jsnumber" where
  "math_max NaN y = NaN"
| "math_max x NaN = NaN"
| "math_max PosInfinity y = PosInfinity"
| "math_max x PosInfinity = PosInfinity"
| "math_max NegInfinity y = y"
| "math_max x NegInfinity = x"
| "math_max (Finite a) (Finite b) = Finite (max a b)"

text \<open>
  Reading \<open>xs[i]\<close>: \<open>undefined\<close> (here \<open>None\<close>) unless \<open>i\<close> is an index of the array.
\<close>

definition array_get :: "'a list \<Rightarrow> int \<Rightarrow> 'a option" where
  "array_get xs i = (if 0 \<le> i \<and> i < int (length xs) then Some (xs ! nat i) else None)"

text \<open>
  Reading \<open>xs[i]\<close> at an index that is any number: \<open>undefined\<close> unless the number is whole.
\<close>

definition array_get_num :: "'a list \<Rightarrow> real \<Rightarrow> 'a option" where
  "array_get_num xs i = (if i = of_int \<lfloor>i\<rfloor> then array_get xs \<lfloor>i\<rfloor> else None)"

text \<open>
  Division of finite numbers: a zero divisor gives \<open>NaN\<close> or an infinity in the source,
  \<open>None\<close> here.
\<close>

definition js_div :: "real \<Rightarrow> real \<Rightarrow> real option" where
  "js_div x y = (if y = 0 then None else Some (x / y))"

text \<open>
  The two statements \<open>const dd = v / peak - 1; if (dd < minDd) minDd = dd\<close> of every
  running-drawdown loop. \<open>minDd\<close> starts at 0 and is only ever assigned a smaller value, so
  it is a finite number or \<open>-Infinity\<close>: \<open>None\<close> stands for \<open>-Infinity\<close>, below which nothing
  is. With a zero peak the quotient is \<open>NaN\<close> for the value 0 and \<open>+Infinity\<close> for a positive
  value, neither of which is below \<open>minDd\<close>, and \<open>-Infinity\<close> for a negative value.
\<close>

definition lower_drawdown :: "real \<Rightarrow> real \<Rightarrow> real option \<Rightarrow> real option" where
  "lower_drawdown v peak minDd =
     (case minDd of
        None \<Rightarrow> None
      | Some m \<Rightarrow>
          (if peak = 0 then (if v < 0 then None else Some m)
           else (let dd = v / peak - 1 in Some (if dd < m then dd else m))))"

subsection \<open>Percentile, drawdown and streak primitives\<close>

text \<open>
  \<open>percentile(values, p)\<close>: sort ascending, interpolate linearly at the fractional rank
  \<open>p / 100 * (n - 1)\<close>. A rank outside the array reads \<open>undefined\<close>, and the result is
  \<open>undefined\<close> or \<open>NaN\<close>: \<open>None\<close>. \<open>rank_lookup\<close> is the part of the function after
  \<open>index\<close> is computed.
\<close>

definition rank_lookup :: "real list \<Rightarrow> real \<Rightarrow> real option" where
  "rank_lookup sorted_values index =
     (let lo = \<lfloor>index\<rfloor>;
          hi = \<lceil>index\<rceil>
      in if lo = hi then array_get sorted_values lo
         else (case (array_get sorted_values lo, array_get sorted_values hi) of
                 (Some a, Some b) \<Rightarrow> Some (a + (b - a) * (index - of_int lo))
               | _ \<Rightarrow> None))"

definition percentile :: "real list \<Rightarrow> real \<Rightarrow> real option" where
  "percentile values p =
     (if length values = 0 then Some 0
      else
        let sorted_values = sort values;
            index = (p / 100) * (real (length sorted_values) - 1)
        in rank_lookup sorted_values index)"

text \<open>
  \<open>maxDrawdown(series)\<close>: one forward pass with a running peak that starts at the first
  element; the loop visits every element, the first included. The state of the loop is
  \<open>peak\<close> and \<open>minDd\<close>. The result \<open>None\<close> is \<open>-Infinity\<close>.
\<close>

fun maxDrawdown_loop :: "real \<Rightarrow> real option \<Rightarrow> real list \<Rightarrow> real option" where
  "maxDrawdown_loop peak minDd [] = minDd"
| "maxDrawdown_loop peak minDd (v # vs) =
     (let peak' = (if v > peak then v else peak)
      in maxDrawdown_loop peak' (lower_drawdown v peak' minDd) vs)"

definition maxDrawdown :: "real list \<Rightarrow> real option" where
  "maxDrawdown series =
     (case series of [] \<Rightarrow> Some 0 | v0 # _ \<Rightarrow> maxDrawdown_loop v0 (Some 0) series)"

text \<open>
  \<open>drawdownSeries(series)\<close>: the same running peak, every drawdown kept. An element is
  \<open>None\<close> where the source divides by a zero peak (and stores \<open>NaN\<close> or an infinity).
\<close>

fun drawdownSeries_loop :: "real \<Rightarrow> real list \<Rightarrow> real option list" where
  "drawdownSeries_loop peak [] = []"
| "drawdownSeries_loop peak (v # vs) =
     (let peak' = (if v > peak then v else peak)
      in map_option (\<lambda>q. q - 1) (js_div v peak') # drawdownSeries_loop peak' vs)"

definition drawdownSeries :: "real list \<Rightarrow> real option list" where
  "drawdownSeries series =
     (case series of [] \<Rightarrow> [] | v0 # _ \<Rightarrow> drawdownSeries_loop v0 series)"

text \<open>\<open>maxConsecutiveLosses(rPath)\<close>: the longest run of strictly negative outcomes.\<close>

fun maxConsecutiveLosses_loop :: "nat \<Rightarrow> nat \<Rightarrow> real list \<Rightarrow> nat" where
  "maxConsecutiveLosses_loop maxRun run [] = maxRun"
| "maxConsecutiveLosses_loop maxRun run (r # rs) =
     (if r < 0
      then (let run' = run + 1
            in maxConsecutiveLosses_loop (if run' > maxRun then run' else maxRun) run' rs)
      else maxConsecutiveLosses_loop maxRun 0 rs)"

definition maxConsecutiveLosses :: "real list \<Rightarrow> nat" where
  "maxConsecutiveLosses rPath = maxConsecutiveLosses_loop 0 0 rPath"

subsection \<open>Pseudo-random generator\<close>

text \<open>
  \<open>mulberry32(seed)\<close> keeps its state \<open>a\<close> in a closure. The source adds the increment
  with the number addition \<open>a += 0x6d2b79f5\<close>, which does not wrap: \<open>a\<close> is an
  integer-valued double that grows with every call, and the 32-bit operations that follow
  read it modulo \<open>2 ^ 32\<close>. \<open>round_double\<close> is the rounding of that addition (to 53
  significant bits, ties to even); it is the identity below \<open>2 ^ 53\<close>.
\<close>

definition round_double :: "nat \<Rightarrow> nat" where
  "round_double n =
     (if n < 2 ^ 53 then n
      else
        let e = floorlog 2 n - 53;
            q = n div 2 ^ e;
            r = n mod 2 ^ e;
            half = 2 ^ (e - 1)
        in if r > half \<or> (r = half \<and> odd q) then (q + 1) * 2 ^ e else q * 2 ^ e)"

text \<open>One call of the closure: the value returned, and the new \<open>a\<close>.\<close>

definition mulberry32_next :: "nat \<Rightarrow> real \<times> nat" where
  "mulberry32_next a0 =
     (let a = round_double (a0 + 0x6d2b79f5);
          t0 = (word_of_nat a :: 32 word);
          t1 = (t0 XOR drop_bit 15 t0) * (t0 OR 1);
          t2 = t1 XOR (t1 + (t1 XOR drop_bit 7 t1) * (t1 OR 61))
      in (real (unat (t2 XOR drop_bit 14 t2)) / 4294967296, a))"

text \<open>
  The generator of a run: the seeded closure with its state, or \<open>Math.random\<close>. The values
  \<open>Math.random\<close> returns are not a function of the program's inputs: they are a parameter
  \<open>env\<close> of the model, \<open>env k\<close> being the value of the \<open>k\<close>-th call of the run.
\<close>

datatype rng = Mulberry32 nat | MathRandom nat

text \<open>
  \<open>createRng(seed ?? undefined)\<close>; \<open>None\<close> is the seed \<open>null\<close>. The initial state is
  \<open>Math.trunc(seed) >>> 0\<close>.
\<close>

definition createRng :: "jsnumber option \<Rightarrow> rng" where
  "createRng seed =
     (case seed of
        None \<Rightarrow> MathRandom 0
      | Some s \<Rightarrow>
          (if \<not> isFinite s then MathRandom 0
           else (case s of
                   Finite x \<Rightarrow> Mulberry32 (nat (trunc_real x mod 2 ^ 32))
                 | _ \<Rightarrow> MathRandom 0)))"

fun rng_next :: "(nat \<Rightarrow> real) \<Rightarrow> rng \<Rightarrow> real \<times> rng" where
  "rng_next env (Mulberry32 a) = (let (u, a') = mulberry32_next a in (u, Mulberry32 a'))"
| "rng_next env (MathRandom k) = (env k, MathRandom (k + 1))"

subsection \<open>Buckets and the normalized probability table\<close>

datatype BucketType = Uniform | Point

record Bucket =
  b_id :: string
  b_name :: string
  b_p :: real
  b_type :: BucketType
  b_lo :: "real option"
  b_hi :: "real option"
  b_v :: "real option"

definition probs_of :: "Bucket list \<Rightarrow> real list" where
  "probs_of buckets = map (\<lambda>b. max 0 (b_p b)) buckets"

text \<open>\<open>probs.reduce((acc, p) => acc + p, 0) || 1\<close>\<close>

definition probSum_of :: "real list \<Rightarrow> real" where
  "probSum_of probs = (let s = foldl (\<lambda>acc p. acc + p) 0 probs in if s = 0 then 1 else s)"

definition normProbs_of :: "real list \<Rightarrow> real list" where
  "normProbs_of probs = map (\<lambda>p. p / probSum_of probs) probs"

definition cumProbs_of :: "real list \<Rightarrow> real list" where
  "cumProbs_of normProbs =
     foldl (\<lambda>acc p. acc @ [(if acc \<noteq> [] then last acc else 0) + p]) [] normProbs"

subsection \<open>Sampling one trade outcome\<close>

text \<open>\<open>Array.prototype.findIndex\<close>: the first index whose element passes, or \<open>-1\<close>.\<close>

fun findIndex :: "('a \<Rightarrow> bool) \<Rightarrow> 'a list \<Rightarrow> int" where
  "findIndex P [] = - 1"
| "findIndex P (x # xs) =
     (if P x then 0 else (let i = findIndex P xs in if i = - 1 then - 1 else i + 1))"

text \<open>
  Lines 409 to 419 of the trade loop. With an empty bucket list the bucket read is
  \<open>undefined\<close> and \<open>bucket.type\<close> raises a \<open>TypeError\<close>.
\<close>

definition sample_trade ::
  "(nat \<Rightarrow> real) \<Rightarrow> Bucket list \<Rightarrow> real list \<Rightarrow> rng \<Rightarrow> error + (real \<times> rng)" where
  "sample_trade env buckets cumProbs g =
     (let (r, g1) = rng_next env g;
          idx = findIndex (\<lambda>p. r \<le> p) cumProbs
      in case array_get buckets (if idx = - 1 then int (length buckets) - 1 else idx) of
           None \<Rightarrow> Inl TypeError
         | Some bucket \<Rightarrow>
             (if b_type bucket = Point
              then Inr (case b_v bucket of Some x \<Rightarrow> x | None \<Rightarrow> 0, g1)
              else
                (let lo = (case b_lo bucket of Some x \<Rightarrow> x | None \<Rightarrow> 0);
                     hi = (case b_hi bucket of Some x \<Rightarrow> x | None \<Rightarrow> 0);
                     (v, g2) = rng_next env g1
                 in Inr (lo + (hi - lo) * v, g2))))"

subsection \<open>Progressive exposure\<close>

record Progressive =
  pg_lossStreakThreshold :: real
  pg_winStreakThreshold :: real
  pg_minRisk :: real
  pg_maxRisk :: real

record exposure =
  currentRisk :: real
  lossStreak :: nat
  winStreak :: nat

text \<open>\<open>Math.max(1, Math.trunc(threshold))\<close> for a finite threshold.\<close>

definition safe_threshold :: "real \<Rightarrow> int" where
  "safe_threshold threshold = max 1 (trunc_real threshold)"

text \<open>Lines 431 to 450: the update of the streak state after a trade with outcome \<open>sample\<close>.\<close>

definition progressive_update :: "Progressive option \<Rightarrow> real \<Rightarrow> exposure \<Rightarrow> exposure" where
  "progressive_update progressive sample x =
     (case progressive of
        None \<Rightarrow> x
      | Some pg \<Rightarrow>
          (if sample > 0 then
             (let w = winStreak x + 1
              in if int w \<ge> safe_threshold (pg_winStreakThreshold pg)
                 then \<lparr>currentRisk = min (pg_maxRisk pg) (currentRisk x * 2),
                       lossStreak = 0, winStreak = 0\<rparr>
                 else \<lparr>currentRisk = currentRisk x, lossStreak = 0, winStreak = w\<rparr>)
           else if sample < 0 then
             (let l = lossStreak x + 1
              in if int l \<ge> safe_threshold (pg_lossStreakThreshold pg)
                 then \<lparr>currentRisk = max (pg_minRisk pg) (currentRisk x / 2),
                       lossStreak = 0, winStreak = 0\<rparr>
                 else \<lparr>currentRisk = currentRisk x, lossStreak = l, winStreak = 0\<rparr>)
           else \<lparr>currentRisk = currentRisk x, lossStreak = 0, winStreak = 0\<rparr>))"

text \<open>
  The exposure a path has reached after the outcomes of its first trades, from the initial
  state of a path (base risk, both streaks at 0).
\<close>

definition exposure_after :: "Progressive option \<Rightarrow> real \<Rightarrow> real list \<Rightarrow> exposure" where
  "exposure_after progressive riskFraction outcomes =
     foldl (\<lambda>x sample. progressive_update progressive sample x)
       \<lparr>currentRisk = riskFraction, lossStreak = 0, winStreak = 0\<rparr> outcomes"

subsection \<open>The trade loop of one path\<close>

record path_state =
  st_equityPath :: "real list"
  st_rPath :: "real list"
  st_equity :: real
  st_exposure :: exposure
  st_peak :: real
  st_minDd :: "real option"
  st_rng :: rng

text \<open>
  The body of the trade loop (lines 409 to 450) at index \<open>t\<close>. The running drawdown
  \<open>st_minDd\<close> is a finite number or \<open>-Infinity\<close> (\<open>None\<close>).
\<close>

definition trade_step ::
  "(nat \<Rightarrow> real) \<Rightarrow> Bucket list \<Rightarrow> Progressive option \<Rightarrow> real list \<Rightarrow> nat \<Rightarrow>
   path_state \<Rightarrow> error + path_state" where
  "trade_step env buckets progressive cumProbs t st =
     (case sample_trade env buckets cumProbs (st_rng st) of
        Inl e \<Rightarrow> Inl e
      | Inr (sample, g) \<Rightarrow>
          (let rPath = (st_rPath st)[t := sample];
               equity = st_equity st * (1 + currentRisk (st_exposure st) * sample);
               equityPath = (st_equityPath st)[t := equity];
               peak = (if equity > st_peak st then equity else st_peak st);
               minDd = lower_drawdown equity peak (st_minDd st)
           in Inr \<lparr>st_equityPath = equityPath, st_rPath = rPath, st_equity = equity,
                    st_exposure = progressive_update progressive sample (st_exposure st),
                    st_peak = peak, st_minDd = minDd, st_rng = g\<rparr>))"

function trade_loop ::
  "(nat \<Rightarrow> real) \<Rightarrow> Bucket list \<Rightarrow> Progressive option \<Rightarrow> real list \<Rightarrow> nat \<Rightarrow> nat \<Rightarrow>
   path_state \<Rightarrow> error + path_state" where
  "trade_loop env buckets progressive cumProbs safeTrades t st =
     (if t < safeTrades then
        (case trade_step env buckets progressive cumProbs t st of
           Inl e \<Rightarrow> Inl e
         | Inr st' \<Rightarrow> trade_loop env buckets progressive cumProbs safeTrades (t + 1) st')
      else Inr st)"
  by pat_completeness auto
termination
  by (relation "measure (\<lambda>(env, buckets, progressive, cumProbs, safeTrades, t, st). safeTrades - t)")
     auto

subsection \<open>Counts and allocation\<close>

text \<open>\<open>Math.max(1, Math.trunc(n))\<close>, the coercion of the trade and path counts.\<close>

definition safe_count :: "jsnumber \<Rightarrow> jsnumber" where
  "safe_count n = math_max (Finite 1) (math_trunc n)"

text \<open>
  Two limits of the engine that runs the code make it raise a \<open>RangeError\<close>: the largest
  typed array it allocates, and the largest number of arguments a call takes (the
  histogram spreads its values into \<open>Math.min\<close> and \<open>Math.max\<close>). The language fixes
  neither; they are parameters of the model.
\<close>

record engine =
  eng_max_length :: nat
  eng_max_arguments :: nat

text \<open>
  \<open>new Array(len)\<close> raises a \<open>RangeError\<close> unless \<open>len\<close> is a whole number from \<open>0\<close> to
  \<open>2 ^ 32 - 1\<close>. \<open>new Float64Array(len)\<close> converts \<open>NaN\<close> to the length \<open>0\<close> and raises a
  \<open>RangeError\<close> for a length that is negative, infinite, above \<open>2 ^ 53 - 1\<close> or above what
  the engine allocates. Both return the length of the array here; the time a run takes
  and the memory of the untyped arrays are not modelled.
\<close>

definition new_Array :: "jsnumber \<Rightarrow> error + nat" where
  "new_Array len =
     (case len of
        Finite r \<Rightarrow>
          (if 0 \<le> r \<and> r \<le> 4294967295 \<and> r = of_int \<lfloor>r\<rfloor> then Inr (nat \<lfloor>r\<rfloor>)
           else Inl RangeError)
      | _ \<Rightarrow> Inl RangeError)"

definition new_Float64Array :: "engine \<Rightarrow> jsnumber \<Rightarrow> error + nat" where
  "new_Float64Array eng len =
     (case len of
        NaN \<Rightarrow> Inr 0
      | Finite r \<Rightarrow>
          (let i = trunc_real r
           in if 0 \<le> i \<and> i \<le> 2 ^ 53 - 1 \<and> i \<le> int (eng_max_length eng) then Inr (nat i)
              else Inl RangeError)
      | _ \<Rightarrow> Inl RangeError)"

subsection \<open>The loop over the paths\<close>

record Config =
  cfg_startEquity :: real
  cfg_nTrades :: jsnumber
  cfg_nPaths :: jsnumber
  cfg_riskFraction :: real
  cfg_seed :: "jsnumber option"
  cfg_tradesPerMonth :: real
  cfg_startYear :: int
  cfg_startMonth :: int
  cfg_buckets :: "Bucket list"
  cfg_progressive :: "Progressive option"

record sim_state =
  sim_equityPaths :: "real list list"
  sim_rPaths :: "real list list"
  sim_finalEquity :: "real list"
  sim_maxDrawdowns :: "real option list"
  sim_maxConsecutiveLossesAll :: "nat list"
  sim_equityMin :: "real option"
  sim_equityMax :: "real option"
  sim_rng :: rng

text \<open>
  The running extremes start at the infinities, \<open>None\<close> here: \<open>value < equityMin\<close> and
  \<open>value > equityMax\<close> hold for the first value.
\<close>

definition lower_to :: "real option \<Rightarrow> real \<Rightarrow> real option" where
  "lower_to equityMin value =
     (case equityMin of None \<Rightarrow> Some value
      | Some m \<Rightarrow> Some (if value < m then value else m))"

definition raise_to :: "real option \<Rightarrow> real \<Rightarrow> real option" where
  "raise_to equityMax value =
     (case equityMax of None \<Rightarrow> Some value
      | Some m \<Rightarrow> Some (if value > m then value else m))"

text \<open>
  The body of the path loop (lines 399 to 462) at index \<open>path\<close>. After a successful
  allocation the trade loop's bound \<open>t < safeTrades\<close> admits as many iterations as the
  arrays have elements (none when \<open>safeTrades\<close> is \<open>NaN\<close>).
\<close>

definition path_step ::
  "engine \<Rightarrow> (nat \<Rightarrow> real) \<Rightarrow> Config \<Rightarrow> real list \<Rightarrow> jsnumber \<Rightarrow> nat \<Rightarrow> sim_state \<Rightarrow>
   error + sim_state" where
  "path_step eng env cfg cumProbs safeTrades path sim =
     (case new_Float64Array eng safeTrades of
        Inl e \<Rightarrow> Inl e
      | Inr n \<Rightarrow>
          (case trade_loop env (cfg_buckets cfg) (cfg_progressive cfg) cumProbs n 0
                  \<lparr>st_equityPath = replicate n 0, st_rPath = replicate n 0,
                   st_equity = cfg_startEquity cfg,
                   st_exposure = \<lparr>currentRisk = cfg_riskFraction cfg, lossStreak = 0,
                                  winStreak = 0\<rparr>,
                   st_peak = cfg_startEquity cfg, st_minDd = Some 0, st_rng = sim_rng sim\<rparr> of
             Inl e \<Rightarrow> Inl e
           | Inr st \<Rightarrow>
               Inr \<lparr>sim_equityPaths = (sim_equityPaths sim)[path := st_equityPath st],
                    sim_rPaths = (sim_rPaths sim)[path := st_rPath st],
                    sim_finalEquity = (sim_finalEquity sim)
                      [path := (case array_get (st_equityPath st) (int n - 1) of
                                  Some x \<Rightarrow> x | None \<Rightarrow> st_equity st)],
                    sim_maxDrawdowns = (sim_maxDrawdowns sim)[path := st_minDd st],
                    sim_maxConsecutiveLossesAll = (sim_maxConsecutiveLossesAll sim)
                      [path := maxConsecutiveLosses (st_rPath st)],
                    sim_equityMin = foldl lower_to (sim_equityMin sim) (st_equityPath st),
                    sim_equityMax = foldl raise_to (sim_equityMax sim) (st_equityPath st),
                    sim_rng = st_rng st\<rparr>))"

function paths_loop ::
  "engine \<Rightarrow> (nat \<Rightarrow> real) \<Rightarrow> Config \<Rightarrow> real list \<Rightarrow> jsnumber \<Rightarrow> nat \<Rightarrow> nat \<Rightarrow> sim_state \<Rightarrow>
   error + sim_state" where
  "paths_loop eng env cfg cumProbs safeTrades safePaths path sim =
     (if path < safePaths then
        (case path_step eng env cfg cumProbs safeTrades path sim of
           Inl e \<Rightarrow> Inl e
         | Inr sim' \<Rightarrow> paths_loop eng env cfg cumProbs safeTrades safePaths (path + 1) sim')
      else Inr sim)"
  by pat_completeness auto
termination
  by (relation
        "measure (\<lambda>(eng, env, cfg, cumProbs, safeTrades, safePaths, path, sim). safePaths - path)")
     auto

subsection \<open>Monthly statistics and histograms\<close>

text \<open>
  A row of the monthly table. The return is \<open>None\<close> when it is not a finite number
  (\<open>NaN\<close> or an infinity), the drawdown \<open>None\<close> when it is \<open>-Infinity\<close>, the end equity \<open>None\<close>
  when it is \<open>undefined\<close>.
\<close>

record MonthlyStatsRow =
  row_year :: int
  row_month :: int
  row_returnValue :: "real option"
  row_maxDrawdown :: "real option"
  row_winRate :: real
  row_maxConsecutiveLosses :: nat
  row_endEquity :: "real option"

text \<open>
  \<open>tradesPerMonth\<close> is any finite number, and the source does not truncate it: the indices
  \<open>startIdx\<close> and \<open>endIdx\<close> of a block are numbers that need not be whole. The loops
  \<open>for (let i = startIdx; i <= endIdx; i += 1)\<close> visit these indices.
\<close>

definition block_indices :: "real \<Rightarrow> real \<Rightarrow> real list" where
  "block_indices startIdx endIdx =
     map (\<lambda>j. startIdx + real j) [0 ..< nat (\<lfloor>endIdx - startIdx\<rfloor> + 1)]"

text \<open>
  The drawdown loop of one block (lines 284 to 291): the state is \<open>(peak, minDd)\<close>. The
  peak is \<open>None\<close> when it is \<open>undefined\<close> (the end equity of the block before was);
  \<open>minDd\<close> is as in \<open>lower_drawdown\<close>. When the value read or the peak is \<open>undefined\<close>,
  no comparison holds and nothing changes.
\<close>

definition block_dd_step ::
  "real list \<Rightarrow> real option \<times> real option \<Rightarrow> real \<Rightarrow> real option \<times> real option" where
  "block_dd_step equityPath st i =
     (let (peak, minDd) = st
      in case (array_get_num equityPath i, peak) of
           (Some value, Some pk) \<Rightarrow>
             (let peak' = (if value > pk then value else pk)
              in (Some peak', lower_drawdown value peak' minDd))
         | _ \<Rightarrow> (peak, minDd))"

text \<open>
  The outcome loop of one block (lines 293 to 309): the state is
  \<open>(wins, losses, maxLossStreak, lossStreak)\<close>. An outcome that is \<open>undefined\<close> is neither
  positive nor negative.
\<close>

definition block_r_step ::
  "real list \<Rightarrow> nat \<times> nat \<times> nat \<times> nat \<Rightarrow> real \<Rightarrow> nat \<times> nat \<times> nat \<times> nat" where
  "block_r_step rPath st i =
     (let (wins, losses, maxLossStreak, lossStreak) = st
      in case array_get_num rPath i of
           None \<Rightarrow> (wins, losses, maxLossStreak, 0)
         | Some r \<Rightarrow>
             (if r > 0 then (wins + 1, losses, maxLossStreak, 0)
              else if r < 0 then
                (let lossStreak' = lossStreak + 1
                 in (wins, losses + 1,
                     (if lossStreak' > maxLossStreak then lossStreak' else maxLossStreak),
                     lossStreak'))
              else (wins, losses, maxLossStreak, 0)))"

text \<open>
  \<open>endEquity / prevEquity - 1\<close>: \<open>NaN\<close> when either equity is \<open>undefined\<close>, \<open>NaN\<close> or an
  infinity when the divisor is 0.
\<close>

definition block_return :: "real option \<Rightarrow> real option \<Rightarrow> real option" where
  "block_return endEquity prevEquity =
     (case (endEquity, prevEquity) of
        (Some e, Some p) \<Rightarrow> map_option (\<lambda>q. q - 1) (js_div e p)
      | _ \<Rightarrow> None)"

text \<open>The loop over the blocks, \<open>m\<close> from its current value up to \<open>nMonths\<close>.\<close>

function monthly_loop ::
  "real list \<Rightarrow> real list \<Rightarrow> real \<Rightarrow> int \<Rightarrow> int \<Rightarrow> real option \<Rightarrow> int \<Rightarrow> int \<Rightarrow>
   MonthlyStatsRow list \<Rightarrow> MonthlyStatsRow list" where
  "monthly_loop equityPath rPath safeTradesPerMonth nMonths m prevEquity year month rows =
     (if m < nMonths then
        (let startIdx = of_int m * safeTradesPerMonth;
             endIdx = min (of_int (m + 1) * safeTradesPerMonth) (real (length equityPath)) - 1
         in if endIdx < startIdx then rows
            else
              (let endEquity = array_get_num equityPath endIdx;
                   returnValue = block_return endEquity prevEquity;
                   block = block_indices startIdx endIdx;
                   (peak, minDd) = foldl (block_dd_step equityPath) (prevEquity, Some 0) block;
                   (wins, losses, maxLossStreak, lossStreak) =
                      foldl (block_r_step rPath) (0, 0, 0, 0) block;
                   trades = wins + losses;
                   winRate = (if trades = 0 then 0 else real wins / real trades);
                   row = \<lparr>row_year = year, row_month = month, row_returnValue = returnValue,
                          row_maxDrawdown = minDd, row_winRate = winRate,
                          row_maxConsecutiveLosses = maxLossStreak, row_endEquity = endEquity\<rparr>;
                   month' = month + 1
               in monthly_loop equityPath rPath safeTradesPerMonth nMonths (m + 1) endEquity
                    (if month' = 13 then year + 1 else year)
                    (if month' = 13 then 1 else month')
                    (rows @ [row])))
      else rows)"
  by pat_completeness auto
termination
  by (relation "measure (\<lambda>(equityPath, rPath, safeTradesPerMonth, nMonths, m, rest). nat (nMonths - m))")
     auto

definition monthlyStatsFromPath ::
  "real list \<Rightarrow> real list \<Rightarrow> real \<Rightarrow> real \<Rightarrow> int \<Rightarrow> int \<Rightarrow> MonthlyStatsRow list" where
  "monthlyStatsFromPath equityPath rPath startEquity tradesPerMonth startYear startMonth =
     (let nTrades = length equityPath;
          safeTradesPerMonth = max 1 tradesPerMonth;
          nMonths = \<lceil>real nTrades / safeTradesPerMonth\<rceil>
      in monthly_loop equityPath rPath safeTradesPerMonth nMonths 0 (Some startEquity)
           startYear startMonth [])"


record Histogram =
  h_bins :: "real list"
  h_counts :: "nat list"
  h_min :: real
  h_max :: real

text \<open>
  \<open>histogram(values, binCount)\<close>. \<open>Math.min(...values)\<close> and \<open>Math.max(...values)\<close> pass
  every value as an argument and raise a \<open>RangeError\<close> when the engine does not take that
  many. Every caller passes at least one value; for an empty list the source's minimum
  and maximum are infinite, and the result is \<open>Inr None\<close>.
\<close>

definition histogram :: "engine \<Rightarrow> real list \<Rightarrow> nat \<Rightarrow> error + Histogram option" where
  "histogram eng values binCount =
     (if length values > eng_max_arguments eng then Inl RangeError
      else if values = [] then Inr None
      else
        (let mn = Min (set values);
             mx = Max (set values);
             span = (if mx - mn = 0 then 1 else mx - mn);
             bins = map (\<lambda>i. mn + (real i * span) / real binCount) [0 ..< binCount];
             counts =
               foldl (\<lambda>counts v.
                        (let idx = min (int binCount - 1)
                                     (max 0 \<lfloor>((v - mn) / span) * real binCount\<rfloor>)
                         in if 0 \<le> idx then counts[nat idx := counts ! nat idx + 1] else counts))
                 (replicate binCount 0) values
         in Inr (Some \<lparr>h_bins = bins, h_counts = counts, h_min = mn, h_max = mx\<rparr>)))"

subsection \<open>Aggregation and the whole run\<close>

record Stats =
  final5 :: "real option"
  final50 :: "real option"
  final95 :: "real option"
  dd5 :: "real option"
  dd50 :: "real option"
  dd95 :: "real option"
  mcl5 :: "real option"
  mcl50 :: "real option"
  mcl95 :: "real option"

record 'a representative =
  rp_median :: 'a
  rp_best :: 'a
  rp_worst :: 'a

record SimulationResult =
  res_equityPaths :: "real list list"
  res_rPaths :: "real list list"
  res_finalEquity :: "real list"
  res_maxDrawdowns :: "real option list"
  res_medianIdx :: nat
  res_bestIdx :: nat
  res_worstIdx :: nat
  res_equityMin :: "real option"
  res_equityMax :: "real option"
  res_stats :: Stats
  res_drawdowns :: "real option list representative"
  res_maxConsecutiveLosses :: "nat representative"
  res_monthlyTables :: "MonthlyStatsRow list representative"
  res_histograms_drawdown :: "Histogram option"
  res_histograms_finalEquity :: "Histogram option"

record selection =
  sel_medianIdx :: nat
  sel_bestIdx :: nat
  sel_worstIdx :: nat
  sel_bestValue :: "real option"
  sel_worstValue :: "real option"
  sel_closest :: "real option"

text \<open>
  The selection loop (lines 483 to 498) at index \<open>i\<close>. \<open>bestValue\<close>, \<open>worstValue\<close> and
  \<open>closest\<close> start at an infinity, \<open>None\<close> here. A median value that is not a finite number
  makes the distance \<open>NaN\<close>, which is below nothing.
\<close>

definition select_step :: "real list \<Rightarrow> real option \<Rightarrow> selection \<Rightarrow> nat \<Rightarrow> selection" where
  "select_step finalEquity medianValue sel i =
     (let value = finalEquity ! i;
          sel1 = (if (case sel_bestValue sel of None \<Rightarrow> True | Some b \<Rightarrow> value > b)
                  then sel\<lparr>sel_bestValue := Some value, sel_bestIdx := i\<rparr> else sel);
          sel2 = (if (case sel_worstValue sel1 of None \<Rightarrow> True | Some w \<Rightarrow> value < w)
                  then sel1\<lparr>sel_worstValue := Some value, sel_worstIdx := i\<rparr> else sel1)
      in case medianValue of
           None \<Rightarrow> sel2
         | Some mv \<Rightarrow>
             (let distance = \<bar>value - mv\<bar>
              in if (case sel_closest sel2 of None \<Rightarrow> True | Some c \<Rightarrow> distance < c)
                 then sel2\<lparr>sel_closest := Some distance, sel_medianIdx := i\<rparr> else sel2))"

text \<open>
  The statistics over the per-path maximum drawdowns. The trade loop of a run records
  finite drawdowns only (\<open>run_drawdowns_finite\<close> below); were one \<open>-Infinity\<close>, the
  statistic would not be covered by this model and is \<open>None\<close>.
\<close>

definition on_finite :: "real option list \<Rightarrow> (real list \<Rightarrow> 'a option) \<Rightarrow> 'a option" where
  "on_finite xs f = (case those xs of None \<Rightarrow> None | Some ys \<Rightarrow> f ys)"

definition histogram_of_drawdowns ::
  "engine \<Rightarrow> real option list \<Rightarrow> nat \<Rightarrow> error + Histogram option" where
  "histogram_of_drawdowns eng maxDrawdowns binCount =
     (if length maxDrawdowns > eng_max_arguments eng then Inl RangeError
      else (case those maxDrawdowns of
              None \<Rightarrow> Inr None
            | Some ds \<Rightarrow> histogram eng ds binCount))"

text \<open>
  Lines 465 to 559. The per-path arrays of a run have one element per path and the three
  indices lie within them; an index outside would pass \<open>undefined\<close> to \<open>drawdownSeries\<close>,
  which raises a \<open>TypeError\<close>. The histograms come last.
\<close>

definition aggregate :: "engine \<Rightarrow> Config \<Rightarrow> sim_state \<Rightarrow> error + SimulationResult" where
  "aggregate eng cfg sim =
     (let finalEquity = sim_finalEquity sim;
          maxDrawdowns = sim_maxDrawdowns sim;
          mcl = sim_maxConsecutiveLossesAll sim;
          stats = \<lparr>final5 = percentile finalEquity 5, final50 = percentile finalEquity 50,
                   final95 = percentile finalEquity 95,
                   dd5 = on_finite maxDrawdowns (\<lambda>ds. percentile ds 5),
                   dd50 = on_finite maxDrawdowns (\<lambda>ds. percentile ds 50),
                   dd95 = on_finite maxDrawdowns (\<lambda>ds. percentile ds 95),
                   mcl5 = percentile (map real mcl) 5, mcl50 = percentile (map real mcl) 50,
                   mcl95 = percentile (map real mcl) 95\<rparr>;
          sel = foldl (select_step finalEquity (final50 stats))
                  \<lparr>sel_medianIdx = 0, sel_bestIdx = 0, sel_worstIdx = 0, sel_bestValue = None,
                   sel_worstValue = None, sel_closest = None\<rparr>
                  [0 ..< length finalEquity];
          medianIdx = sel_medianIdx sel;
          bestIdx = sel_bestIdx sel;
          worstIdx = sel_worstIdx sel;
          equityPaths = sim_equityPaths sim;
          rPaths = sim_rPaths sim
      in if medianIdx < length equityPaths \<and> bestIdx < length equityPaths \<and>
            worstIdx < length equityPaths \<and> medianIdx < length rPaths \<and>
            bestIdx < length rPaths \<and> worstIdx < length rPaths \<and>
            medianIdx < length mcl \<and> bestIdx < length mcl \<and> worstIdx < length mcl
         then
           (let monthly = (\<lambda>i. monthlyStatsFromPath (equityPaths ! i) (rPaths ! i)
                                   (cfg_startEquity cfg) (cfg_tradesPerMonth cfg)
                                   (cfg_startYear cfg) (cfg_startMonth cfg))
            in case histogram_of_drawdowns eng maxDrawdowns 60 of
                 Inl e \<Rightarrow> Inl e
               | Inr histogram_drawdown \<Rightarrow>
                   (case histogram eng finalEquity 60 of
                      Inl e \<Rightarrow> Inl e
                    | Inr histogram_finalEquity \<Rightarrow>
                        Inr \<lparr>res_equityPaths = equityPaths, res_rPaths = rPaths,
                             res_finalEquity = finalEquity, res_maxDrawdowns = maxDrawdowns,
                             res_medianIdx = medianIdx, res_bestIdx = bestIdx,
                             res_worstIdx = worstIdx,
                             res_equityMin = sim_equityMin sim,
                             res_equityMax = sim_equityMax sim,
                             res_stats = stats,
                             res_drawdowns =
                               \<lparr>rp_median = drawdownSeries (equityPaths ! medianIdx),
                                rp_best = drawdownSeries (equityPaths ! bestIdx),
                                rp_worst = drawdownSeries (equityPaths ! worstIdx)\<rparr>,
                             res_maxConsecutiveLosses =
                               \<lparr>rp_median = mcl ! medianIdx, rp_best = mcl ! bestIdx,
                                rp_worst = mcl ! worstIdx\<rparr>,
                             res_monthlyTables =
                               \<lparr>rp_median = monthly medianIdx, rp_best = monthly bestIdx,
                                rp_worst = monthly worstIdx\<rparr>,
                             res_histograms_drawdown = histogram_drawdown,
                             res_histograms_finalEquity = histogram_finalEquity\<rparr>))
         else Inl TypeError)"

text \<open>
  \<open>runSimulation\<close>. After \<open>new Array(safePaths)\<close> has succeeded, \<open>safePaths\<close> is the whole
  number of elements it returns and the bound of the path loop.
\<close>

definition runSimulation ::
  "engine \<Rightarrow> (nat \<Rightarrow> real) \<Rightarrow> Config \<Rightarrow> error + SimulationResult" where
  "runSimulation eng env cfg =
     (let safeTrades = safe_count (cfg_nTrades cfg);
          safePaths = safe_count (cfg_nPaths cfg);
          probs = probs_of (cfg_buckets cfg);
          normProbs = normProbs_of probs;
          cumProbs = cumProbs_of normProbs;
          g = createRng (cfg_seed cfg)
      in case new_Array safePaths of
           Inl e \<Rightarrow> Inl e
         | Inr n \<Rightarrow>
             (case paths_loop eng env cfg cumProbs safeTrades n 0
                     \<lparr>sim_equityPaths = replicate n [], sim_rPaths = replicate n [],
                      sim_finalEquity = replicate n 0, sim_maxDrawdowns = replicate n (Some 0),
                      sim_maxConsecutiveLossesAll = replicate n 0,
                      sim_equityMin = None, sim_equityMax = None, sim_rng = g\<rparr> of
                Inl e \<Rightarrow> Inl e
              | Inr sim \<Rightarrow> aggregate eng cfg sim))"

subsection \<open>Loop invariants\<close>

text \<open>
  The recurrence of an equity series up to index \<open>t\<close>: every equity is the one before
  it (the start equity at index 0) times \<open>1 + risk * outcome\<close>, the risk being the one
  reached after the outcomes before that index.
\<close>

definition follows_recurrence ::
  "real \<Rightarrow> Progressive option \<Rightarrow> real \<Rightarrow> real list \<Rightarrow> real list \<Rightarrow> nat \<Rightarrow> bool" where
  "follows_recurrence startEquity progressive riskFraction equityPath rPath t \<longleftrightarrow>
     (\<forall>i<t. equityPath ! i =
        (if i = 0 then startEquity else equityPath ! (i - 1)) *
        (1 + currentRisk (exposure_after progressive riskFraction (take i rPath)) * rPath ! i))"

text \<open>The state of the trade loop before the trade at index \<open>t\<close>, for arrays of \<open>n\<close> elements.\<close>

definition trade_inv ::
  "real \<Rightarrow> Progressive option \<Rightarrow> real \<Rightarrow> nat \<Rightarrow> nat \<Rightarrow> path_state \<Rightarrow> bool" where
  "trade_inv startEquity progressive riskFraction n t st \<longleftrightarrow>
     length (st_equityPath st) = n \<and> length (st_rPath st) = n \<and>
     st_equity st = (if t = 0 then startEquity else st_equityPath st ! (t - 1)) \<and>
     st_exposure st = exposure_after progressive riskFraction (take t (st_rPath st)) \<and>
     follows_recurrence startEquity progressive riskFraction (st_equityPath st) (st_rPath st) t"

text \<open>
  The state of the path loop before the path at index \<open>path\<close>, for \<open>safePaths\<close> paths of
  \<open>n\<close> trades.
\<close>

definition paths_inv :: "Config \<Rightarrow> nat \<Rightarrow> nat \<Rightarrow> nat \<Rightarrow> sim_state \<Rightarrow> bool" where
  "paths_inv cfg n safePaths path sim \<longleftrightarrow>
     length (sim_equityPaths sim) = safePaths \<and> length (sim_rPaths sim) = safePaths \<and>
     length (sim_finalEquity sim) = safePaths \<and> length (sim_maxDrawdowns sim) = safePaths \<and>
     length (sim_maxConsecutiveLossesAll sim) = safePaths \<and>
     (\<forall>p<path. length (sim_equityPaths sim ! p) = n \<and> length (sim_rPaths sim ! p) = n \<and>
        follows_recurrence (cfg_startEquity cfg) (cfg_progressive cfg) (cfg_riskFraction cfg)
          (sim_equityPaths sim ! p) (sim_rPaths sim ! p) n)"

text \<open>
  The running drawdown of the trade loop stays finite: a zero peak comes with a zero
  equity, for which the quotient is \<open>NaN\<close>.
\<close>

definition dd_inv :: "path_state \<Rightarrow> bool" where
  "dd_inv st \<longleftrightarrow> st_minDd st \<noteq> None \<and> (st_peak st = 0 \<longrightarrow> st_equity st = 0)"

subsection \<open>Example inputs\<close>

text \<open>
  Two buckets of equal weight, a fixed loss of one unit and a win drawn from an interval,
  and a bucket of weight zero.
\<close>

definition loss_bucket :: Bucket where
  "loss_bucket =
     \<lparr>b_id = ''hard_loss'', b_name = ''Hard loss'', b_p = 1 / 2, b_type = Point,
      b_lo = None, b_hi = None, b_v = Some (- 1)\<rparr>"

definition win_bucket :: Bucket where
  "win_bucket =
     \<lparr>b_id = ''small_win'', b_name = ''Small win'', b_p = 1 / 2, b_type = Uniform,
      b_lo = Some 1, b_hi = Some 3, b_v = None\<rparr>"

definition zero_weight_bucket :: Bucket where
  "zero_weight_bucket =
     \<lparr>b_id = ''flat'', b_name = ''Flat'', b_p = 0, b_type = Point, b_lo = None, b_hi = None,
      b_v = Some 0\<rparr>"

text \<open>Two streams for \<open>Math.random\<close>, each constant.\<close>

definition random_low :: "nat \<Rightarrow> real" where
  "random_low k = 1 / 4"

definition random_high :: "nat \<Rightarrow> real" where
  "random_high k = 3 / 4"

definition demo_policy :: Progressive where
  "demo_policy =
     \<lparr>pg_lossStreakThreshold = 1, pg_winStreakThreshold = 2, pg_minRisk = 1 / 100,
      pg_maxRisk = 4 / 100\<rparr>"

text \<open>The same policy with a floor below zero.\<close>

definition negative_floor_policy :: Progressive where
  "negative_floor_policy =
     \<lparr>pg_lossStreakThreshold = 1, pg_winStreakThreshold = 2, pg_minRisk = - 1,
      pg_maxRisk = 4 / 100\<rparr>"

text \<open>An engine with room for a million elements and a hundred thousand arguments.\<close>

definition demo_engine :: engine where
  "demo_engine = \<lparr>eng_max_length = 1000000, eng_max_arguments = 100000\<rparr>"

text \<open>A seeded run of two paths of three trades.\<close>

definition demo_config :: Config where
  "demo_config =
     \<lparr>cfg_startEquity = 1000, cfg_nTrades = Finite 3, cfg_nPaths = Finite 2,
      cfg_riskFraction = 1 / 50, cfg_seed = Some (Finite 25), cfg_tradesPerMonth = 2,
      cfg_startYear = 2024, cfg_startMonth = 12, cfg_buckets = [loss_bucket, win_bucket],
      cfg_progressive = Some demo_policy\<rparr>"

text \<open>The same run with degenerate counts, and with counts that are not numbers.\<close>

definition degenerate_config :: Config where
  "degenerate_config = demo_config\<lparr>cfg_nTrades := Finite 0, cfg_nPaths := NegInfinity\<rparr>"

definition nan_paths_config :: Config where
  "nan_paths_config = demo_config\<lparr>cfg_nPaths := NaN\<rparr>"

definition nan_trades_config :: Config where
  "nan_trades_config = demo_config\<lparr>cfg_nTrades := NaN\<rparr>"

section \<open>Properties\<close>

declare trade_loop.simps [simp del]
declare paths_loop.simps [simp del]

subsection \<open>Percentile\<close>

lemma rank_lookup_bounds:
  assumes "sorted s" "0 \<le> x" "x \<le> real (length s) - 1"
  shows "\<exists>y. rank_lookup s x = Some y \<and> s ! nat \<lfloor>x\<rfloor> \<le> y \<and> y \<le> s ! nat \<lceil>x\<rceil>"
proof -
  have lo0: "0 \<le> \<lfloor>x\<rfloor>" using assms(2) by simp
  have hi0: "0 \<le> \<lceil>x\<rceil>" using assms(2) by (simp add: ceiling_le_iff le_floor_iff)
  have "x \<le> of_int (int (length s) - 1)" using assms(3) by simp
  then have "\<lceil>x\<rceil> \<le> int (length s) - 1" by (rule ceiling_le)
  then have hin: "\<lceil>x\<rceil> < int (length s)" by simp
  have lohi: "\<lfloor>x\<rfloor> \<le> \<lceil>x\<rceil>" by (rule floor_le_ceiling)
  then have lon: "\<lfloor>x\<rfloor> < int (length s)" using hin by linarith
  have nlo: "nat \<lfloor>x\<rfloor> \<le> nat \<lceil>x\<rceil>" using lohi by (rule nat_mono)
  have nhi: "nat \<lceil>x\<rceil> < length s" using hin hi0 by linarith
  have mono: "s ! nat \<lfloor>x\<rfloor> \<le> s ! nat \<lceil>x\<rceil>"
    using assms(1) nlo nhi by (rule sorted_nth_mono)
  show ?thesis
  proof (cases "\<lfloor>x\<rfloor> = \<lceil>x\<rceil>")
    case True
    then show ?thesis using lo0 lon by (simp add: rank_lookup_def array_get_def Let_def)
  next
    case False
    have t0: "0 \<le> x - of_int \<lfloor>x\<rfloor>" by simp
    have t1: "x - of_int \<lfloor>x\<rfloor> \<le> 1" by linarith
    let ?a = "s ! nat \<lfloor>x\<rfloor>" and ?b = "s ! nat \<lceil>x\<rceil>"
    have eq: "rank_lookup s x = Some (?a + (?b - ?a) * (x - of_int \<lfloor>x\<rfloor>))"
      using False lo0 lon hi0 hin by (simp add: rank_lookup_def array_get_def Let_def)
    have "0 \<le> (?b - ?a) * (x - of_int \<lfloor>x\<rfloor>)" using mono t0 by simp
    moreover have "(?b - ?a) * (x - of_int \<lfloor>x\<rfloor>) \<le> (?b - ?a) * 1"
      using mono t1 by (intro mult_left_mono) simp_all
    ultimately show ?thesis using eq by simp
  qed
qed

lemma rank_lookup_mono:
  assumes "sorted s" "0 \<le> x" "x \<le> x'" "x' \<le> real (length s) - 1"
  shows "\<exists>y y'. rank_lookup s x = Some y \<and> rank_lookup s x' = Some y' \<and> y \<le> y'"
proof -
  have x': "0 \<le> x'" and x: "x \<le> real (length s) - 1" using assms by simp_all
  from rank_lookup_bounds [OF assms(1,2) x] obtain y where
    y: "rank_lookup s x = Some y" "s ! nat \<lfloor>x\<rfloor> \<le> y" "y \<le> s ! nat \<lceil>x\<rceil>" by blast
  from rank_lookup_bounds [OF assms(1) x' assms(4)] obtain y' where
    y': "rank_lookup s x' = Some y'" "s ! nat \<lfloor>x'\<rfloor> \<le> y'" "y' \<le> s ! nat \<lceil>x'\<rceil>" by blast
  have hi0: "0 \<le> \<lceil>x'\<rceil>" using x' by (simp add: ceiling_le_iff le_floor_iff)
  have "x' \<le> of_int (int (length s) - 1)" using assms(4) by simp
  then have "\<lceil>x'\<rceil> \<le> int (length s) - 1" by (rule ceiling_le)
  then have nhi: "nat \<lceil>x'\<rceil> < length s" using hi0 by linarith
  have "y \<le> y'"
  proof (cases "\<lceil>x\<rceil> \<le> \<lfloor>x'\<rfloor>")
    case True
    have "nat \<lfloor>x'\<rfloor> \<le> nat \<lceil>x'\<rceil>" using floor_le_ceiling [of x'] by (rule nat_mono)
    then have "nat \<lfloor>x'\<rfloor> < length s" using nhi by simp
    moreover have "nat \<lceil>x\<rceil> \<le> nat \<lfloor>x'\<rfloor>" using True by (rule nat_mono)
    ultimately have "s ! nat \<lceil>x\<rceil> \<le> s ! nat \<lfloor>x'\<rfloor>"
      using assms(1) by (simp add: sorted_nth_mono)
    with y(3) y'(2) show ?thesis by linarith
  next
    case False
    then have lt: "\<lfloor>x'\<rfloor> < \<lceil>x\<rceil>" by simp
    have fl: "\<lfloor>x\<rfloor> \<le> \<lfloor>x'\<rfloor>" using assms(3) by (rule floor_mono)
    have ce: "\<lceil>x\<rceil> \<le> \<lceil>x'\<rceil>" using assms(3) by (rule ceiling_mono)
    have nonint: "\<lfloor>x\<rfloor> \<noteq> \<lceil>x\<rceil>"
    proof
      assume "\<lfloor>x\<rfloor> = \<lceil>x\<rceil>"
      with lt fl show False by simp
    qed
    then have cx: "\<lceil>x\<rceil> = \<lfloor>x\<rfloor> + 1" using ceiling_altdef [of x] floor_le_ceiling [of x]
      by (auto split: if_splits)
    with lt fl have fleq: "\<lfloor>x'\<rfloor> = \<lfloor>x\<rfloor>" by simp
    have nonint': "\<lfloor>x'\<rfloor> \<noteq> \<lceil>x'\<rceil>" using ce cx fleq by simp
    then have cx': "\<lceil>x'\<rceil> = \<lfloor>x'\<rfloor> + 1" using ceiling_altdef [of x'] floor_le_ceiling [of x']
      by (auto split: if_splits)
    have ceq: "\<lceil>x'\<rceil> = \<lceil>x\<rceil>" using cx cx' fleq by simp
    have lo0: "0 \<le> \<lfloor>x\<rfloor>" using assms(2) by simp
    have inr: "\<lfloor>x\<rfloor> < int (length s)" "0 \<le> \<lceil>x\<rceil>" "\<lceil>x\<rceil> < int (length s)"
      using nhi hi0 ceq cx lo0 by simp_all
    let ?a = "s ! nat \<lfloor>x\<rfloor>" and ?b = "s ! nat \<lceil>x\<rceil>"
    have e1: "rank_lookup s x = Some (?a + (?b - ?a) * (x - of_int \<lfloor>x\<rfloor>))"
      using nonint lo0 inr by (simp add: rank_lookup_def array_get_def Let_def)
    have e2: "rank_lookup s x' = Some (?a + (?b - ?a) * (x' - of_int \<lfloor>x\<rfloor>))"
      using nonint' lo0 inr fleq ceq by (simp add: rank_lookup_def array_get_def Let_def)
    have ab: "?a \<le> ?b" using y(2,3) by linarith
    have "(?b - ?a) * (x - of_int \<lfloor>x\<rfloor>) \<le> (?b - ?a) * (x' - of_int \<lfloor>x\<rfloor>)"
      using ab assms(3) by (intro mult_left_mono) simp_all
    with e1 e2 y(1) y'(1) show ?thesis by simp
  qed
  with y(1) y'(1) show ?thesis by blast
qed

lemma rank_lookup_nat: "k < length s \<Longrightarrow> rank_lookup s (real k) = Some (s ! k)"
  by (simp add: rank_lookup_def array_get_def Let_def)

lemma sorted_first_Min: "sorted s \<Longrightarrow> s \<noteq> [] \<Longrightarrow> s ! 0 = Min (set s)"
  by (cases s) (auto intro!: Min_eqI [symmetric])

lemma sorted_last_Max: "sorted s \<Longrightarrow> s \<noteq> [] \<Longrightarrow> s ! (length s - 1) = Max (set s)"
proof -
  assume a: "sorted s" "s \<noteq> []"
  have "\<And>y. y \<in> set s \<Longrightarrow> y \<le> s ! (length s - 1)"
  proof -
    fix y assume "y \<in> set s"
    then obtain i where i: "i < length s" "s ! i = y" by (auto simp: in_set_conv_nth)
    then have "s ! i \<le> s ! (length s - 1)" using a by (intro sorted_nth_mono) auto
    with i show "y \<le> s ! (length s - 1)" by simp
  qed
  moreover have "s ! (length s - 1) \<in> set s" using a(2) by simp
  ultimately show ?thesis by (intro Max_eqI [symmetric]) auto
qed

text \<open>
  Claim C6. The percentile of an empty list is 0. For a non-empty list, the percentile at
  \<open>p = 0\<close> is the least value and at \<open>p = 100\<close> the greatest. For a fixed list the
  percentile does not decrease when \<open>p\<close> grows within \<open>0 \<le> p \<le> 100\<close>
  (in exact arithmetic).
\<close>

theorem percentile_endpoints_monotone_empty:
  "percentile [] p = Some 0 \<and>
   (values \<noteq> [] \<longrightarrow>
      percentile values 0 = Some (Min (set values)) \<and>
      percentile values 100 = Some (Max (set values))) \<and>
   (0 \<le> p \<and> p \<le> q \<and> q \<le> 100 \<longrightarrow>
      (\<exists>a b. percentile values p = Some a \<and> percentile values q = Some b \<and> a \<le> b))"
proof (intro conjI impI)
  show "percentile [] p = Some 0" by (simp add: percentile_def)
next
  assume ne: "values \<noteq> []"
  let ?s = "sort values"
  have sne: "?s \<noteq> []" using ne by (metis length_sort length_0_conv)
  have s: "sorted ?s" "?s \<noteq> []" "set ?s = set values" "length ?s = length values"
    using sne by (simp, blast, simp, simp)
  have "rank_lookup ?s (real 0) = Some (?s ! 0)"
    using ne by (intro rank_lookup_nat) simp
  then have "percentile values 0 = Some (?s ! 0)"
    using ne by (simp add: percentile_def)
  then show "percentile values 0 = Some (Min (set values))"
    using sorted_first_Min [OF s(1,2)] s(3) by simp
  have len: "1 \<le> length ?s" using ne by (cases "values") simp_all
  have ix: "(100 / 100) * (real (length ?s) - 1) = real (length ?s - 1)"
    using of_nat_diff [OF len, where ?'a = real] by simp
  have "rank_lookup ?s (real (length ?s - 1)) = Some (?s ! (length ?s - 1))"
    using len by (intro rank_lookup_nat) simp
  then have "percentile values 100 = Some (?s ! (length ?s - 1))"
    using ne unfolding percentile_def Let_def ix by simp
  then show "percentile values 100 = Some (Max (set values))"
    using sorted_last_Max [OF s(1,2)] s(3) by simp
next
  assume pq: "0 \<le> p \<and> p \<le> q \<and> q \<le> 100"
  show "\<exists>a b. percentile values p = Some a \<and> percentile values q = Some b \<and> a \<le> b"
  proof (cases "values = []")
    case True
    then show ?thesis by (simp add: percentile_def)
  next
    case False
    let ?s = "sort values"
    let ?n = "real (length ?s) - 1"
    have n0: "0 \<le> ?n" using False by (cases "values") simp_all
    have 1: "0 \<le> (p / 100) * ?n" using pq n0 by simp
    have 2: "(p / 100) * ?n \<le> (q / 100) * ?n" using pq n0 by (intro mult_right_mono) simp_all
    have "(q / 100) * ?n \<le> 1 * ?n" using pq n0 by (intro mult_right_mono) simp_all
    then have 3: "(q / 100) * ?n \<le> real (length ?s) - 1" by simp
    from rank_lookup_mono [OF sorted_sort 1 2 3]
    show ?thesis using False by (simp add: percentile_def Let_def)
  qed
qed

theorem percentile_witness:
  "[3, 1, 2 :: real] \<noteq> [] \<and> (0 :: real) \<le> 5 \<and> (5 :: real) \<le> 50 \<and> (50 :: real) \<le> 100 \<and>
   percentile [3, 1, 2] 0 = Some 1 \<and> percentile [3, 1, 2] 100 = Some 3 \<and>
   (\<exists>a b. percentile [3, 1, 2] 5 = Some a \<and> percentile [3, 1, 2] 50 = Some b \<and> a \<le> b)"
  using percentile_endpoints_monotone_empty [of 5 "[3, 1, 2]" 50]
  by simp

subsection \<open>Drawdown\<close>

lemma lower_drawdown_nonzero:
  "peak \<noteq> 0 \<Longrightarrow>
   lower_drawdown v peak (Some m) = Some (if v / peak - 1 < m then v / peak - 1 else m)"
  by (simp add: lower_drawdown_def Let_def)

lemma maxDrawdown_loop_le:
  "0 < peak \<Longrightarrow> \<forall>v\<in>set vs. 0 < v \<Longrightarrow>
   \<exists>d. maxDrawdown_loop peak (Some m) vs = Some d \<and> d \<le> m"
proof (induction vs arbitrary: peak m)
  case Nil
  then show ?case by simp
next
  case (Cons v vs)
  let ?pk = "if v > peak then v else peak"
  let ?dd = "v / ?pk - 1"
  let ?m = "if ?dd < m then ?dd else m"
  have pk: "0 < ?pk" using Cons.prems by simp
  then have pk0: "?pk \<noteq> 0" by simp
  have vs: "\<forall>v\<in>set vs. 0 < v" using Cons.prems by simp
  from Cons.IH [OF pk vs, of ?m] obtain d where
    d: "maxDrawdown_loop ?pk (Some ?m) vs = Some d" "d \<le> ?m" by blast
  have "?m \<le> m" by simp
  with d have "d \<le> m" by linarith
  moreover have "maxDrawdown_loop peak (Some m) (v # vs) = Some d"
    using d(1) lower_drawdown_nonzero [OF pk0, of v m] by (simp add: Let_def)
  ultimately show ?case by blast
qed

lemma maxDrawdown_loop_sorted:
  "0 < peak \<Longrightarrow> \<forall>v\<in>set vs. 0 < v \<Longrightarrow>
   \<exists>d. maxDrawdown_loop peak (Some 0) vs = Some d \<and> d \<le> 0 \<and> (d = 0 \<longleftrightarrow> sorted (peak # vs))"
proof (induction vs arbitrary: peak)
  case Nil
  then show ?case by simp
next
  case (Cons v vs)
  have v: "0 < v" and vs: "\<forall>v\<in>set vs. 0 < v" using Cons.prems by simp_all
  show ?case
  proof (cases "peak \<le> v")
    case True
    from Cons.IH [OF v vs] obtain d where
      d: "maxDrawdown_loop v (Some 0) vs = Some d" "d \<le> 0" "d = 0 \<longleftrightarrow> sorted (v # vs)" by blast
    have "lower_drawdown v v (Some 0) = Some 0"
      using v by (simp add: lower_drawdown_def)
    then have "maxDrawdown_loop peak (Some 0) (v # vs) = Some d"
      using d(1) True by (auto simp add: Let_def)
    moreover have "sorted (peak # v # vs) \<longleftrightarrow> sorted (v # vs)"
      using True by auto
    ultimately show ?thesis using d by simp
  next
    case False
    then have lt: "v < peak" by simp
    then have neg: "v / peak - 1 < 0" using Cons.prems(1) by (simp add: field_simps)
    from maxDrawdown_loop_le [OF Cons.prems(1) vs, of "v / peak - 1"] obtain d where
      d: "maxDrawdown_loop peak (Some (v / peak - 1)) vs = Some d" "d \<le> v / peak - 1" by blast
    have "lower_drawdown v peak (Some 0) = Some (v / peak - 1)"
      using neg Cons.prems(1) by (simp add: lower_drawdown_def)
    then have "maxDrawdown_loop peak (Some 0) (v # vs) = Some d"
      using d(1) lt by (simp add: Let_def)
    moreover have "d < 0" using d(2) neg by linarith
    moreover have "\<not> sorted (peak # v # vs)" using lt by auto
    ultimately show ?thesis by simp
  qed
qed

text \<open>
  Claim C7. An empty series has maximum drawdown 0. For a non-empty series of positive
  values the maximum drawdown is at most 0, and it is 0 exactly when the series is
  non-decreasing.
\<close>

theorem maxDrawdown_nonpositive_zero_iff_sorted:
  "maxDrawdown [] = Some 0 \<and>
   (series \<noteq> [] \<and> (\<forall>v\<in>set series. 0 < v) \<longrightarrow>
      (\<exists>d. maxDrawdown series = Some d \<and> d \<le> 0 \<and> (d = 0 \<longleftrightarrow> sorted series)))"
proof (intro conjI impI)
  show "maxDrawdown [] = Some 0" by (simp add: maxDrawdown_def)
next
  assume a: "series \<noteq> [] \<and> (\<forall>v\<in>set series. 0 < v)"
  then obtain v0 vs where s: "series = v0 # vs" by (cases series) auto
  with a have v0: "0 < v0" and vs: "\<forall>v\<in>set vs. 0 < v" by simp_all
  from maxDrawdown_loop_sorted [OF v0 vs] obtain d where
    d: "maxDrawdown_loop v0 (Some 0) vs = Some d" "d \<le> 0" "d = 0 \<longleftrightarrow> sorted (v0 # vs)" by blast
  have "lower_drawdown v0 v0 (Some 0) = Some 0"
    using v0 by (simp add: lower_drawdown_def)
  then have "maxDrawdown series = Some d"
    using d(1) by (simp add: s maxDrawdown_def)
  with d s show "\<exists>d. maxDrawdown series = Some d \<and> d \<le> 0 \<and> (d = 0 \<longleftrightarrow> sorted series)"
    by simp
qed

theorem maxDrawdown_witness:
  "[100, 110, 99, 120 :: real] \<noteq> [] \<and> list_all (\<lambda>v. 0 < v) [100, 110, 99, 120 :: real] \<and>
   (\<exists>d. maxDrawdown [100, 110, 99, 120] = Some d \<and> d \<le> 0 \<and>
        (d = 0 \<longleftrightarrow> sorted [100, 110, 99, 120 :: real]))"
  using maxDrawdown_nonpositive_zero_iff_sorted [of "[100, 110, 99, 120]"]
  by simp

text \<open>A list of drawdowns is a list of finite numbers exactly when no element is \<open>None\<close>.\<close>

lemma all_Some_iff: "(\<exists>ds. xs = map Some ds) \<longleftrightarrow> None \<notin> set xs"
proof
  assume "\<exists>ds. xs = map Some ds"
  then show "None \<notin> set xs" by auto
next
  assume "None \<notin> set xs"
  then have "xs = map Some (map the xs)"
    by (induction xs) auto
  then show "\<exists>ds. xs = map Some ds" ..
qed

text \<open>Both loops from a positive peak.\<close>

lemma drawdown_loops_positive:
  "0 < peak \<Longrightarrow>
   \<exists>ds. drawdownSeries_loop peak vs = map Some ds \<and> (\<forall>d\<in>set ds. d \<le> 0)"
proof (induction vs arbitrary: peak)
  case Nil
  then show ?case by simp
next
  case (Cons v vs)
  let ?pk = "if v > peak then v else peak"
  let ?dd = "v / ?pk - 1"
  have pk: "0 < ?pk" using Cons.prems by simp
  then have pk0: "?pk \<noteq> 0" by simp
  from Cons.IH [OF pk] obtain ds where
    ds: "drawdownSeries_loop ?pk vs = map Some ds" "\<forall>d\<in>set ds. d \<le> 0" by blast
  have 1: "drawdownSeries_loop peak (v # vs) = map Some (?dd # ds)"
    using ds(1) pk0 by (simp add: js_div_def Let_def)
  have "?dd \<le> 0" using Cons.prems by (simp add: field_simps)
  then have 2: "\<forall>d\<in>set (?dd # ds). d \<le> 0" using ds(2) by simp
  from 1 2 show ?case by blast
qed

text \<open>
  The series loop from a negative peak: a zero among the values before the first positive
  one becomes the peak and is divided by itself.
\<close>

lemma drawdownSeries_loop_finite:
  "peak < 0 \<Longrightarrow>
   None \<notin> set (drawdownSeries_loop peak vs) \<longleftrightarrow> 0 \<notin> set (takeWhile (\<lambda>v. v \<le> 0) vs)"
proof (induction vs arbitrary: peak)
  case Nil
  then show ?case by simp
next
  case (Cons v vs)
  consider "0 < v" | "v = 0" | "v < 0" by linarith
  then show ?case
  proof cases
    case 1
    from drawdown_loops_positive [OF 1, of vs] have "None \<notin> set (drawdownSeries_loop v vs)"
      by auto
    then show ?thesis using 1 Cons.prems by (simp add: js_div_def Let_def)
  next
    case 2
    then show ?thesis using Cons.prems by (simp add: js_div_def Let_def)
  next
    case 3
    let ?pk = "if v > peak then v else peak"
    have pk: "?pk < 0" using 3 Cons.prems by simp
    then have pk0: "?pk \<noteq> 0" by simp
    have "None \<notin> set (drawdownSeries_loop peak (v # vs)) \<longleftrightarrow>
          None \<notin> set (drawdownSeries_loop ?pk vs)"
      using pk0 by (simp add: js_div_def Let_def)
    also have "\<dots> \<longleftrightarrow> 0 \<notin> set (takeWhile (\<lambda>v. v \<le> 0) vs)" using pk by (rule Cons.IH)
    also have "\<dots> \<longleftrightarrow> 0 \<notin> set (takeWhile (\<lambda>v. v \<le> 0) (v # vs))" using 3 by simp
    finally show ?thesis .
  qed
qed

text \<open>
  From a negative peak a drawdown is at most 0 only where the value is the peak: the
  values before the first positive one must not decrease.
\<close>

lemma drawdownSeries_loop_sign:
  "peak < 0 \<Longrightarrow> drawdownSeries_loop peak vs = map Some ds \<Longrightarrow>
   (\<forall>d\<in>set ds. d \<le> 0) \<longleftrightarrow> sorted (peak # takeWhile (\<lambda>v. v \<le> 0) vs)"
proof (induction vs arbitrary: peak ds)
  case Nil
  then show ?case by simp
next
  case (Cons v vs)
  let ?pk = "if v > peak then v else peak"
  from Cons.prems(2) obtain d ds' where
    ds: "ds = d # ds'" and
    d: "map_option (\<lambda>q. q - 1) (js_div v ?pk) = Some d" and
    rest: "drawdownSeries_loop ?pk vs = map Some ds'"
    by (cases ds) (simp_all add: Let_def)
  have pk0: "?pk \<noteq> 0" using d by (auto simp add: js_div_def split: if_splits)
  have dv: "d = v / ?pk - 1" using d pk0 by (auto simp add: js_div_def)
  consider "0 < v" | "v = 0" | "v < 0" "peak < v" | "v < 0" "v = peak" | "v < peak"
    by linarith
  then show ?case
  proof cases
    case 1
    then have pk: "?pk = v" using Cons.prems(1) by simp
    from drawdown_loops_positive [OF 1, of vs] obtain ds'' where
      "drawdownSeries_loop v vs = map Some ds''" "\<forall>d\<in>set ds''. d \<le> 0" by blast
    with rest pk have "\<forall>d\<in>set ds'. d \<le> 0" by (simp add: map_eq_conv inj_map_eq_map)
    moreover have "d = 0" using dv pk 1 by simp
    ultimately show ?thesis using ds 1 by simp
  next
    case 2
    then have "?pk = 0" using Cons.prems(1) by simp
    with pk0 show ?thesis by simp
  next
    case 3
    then have pk: "?pk = v" by simp
    have "d = 0" using dv pk 3(1) by simp
    moreover have "(\<forall>d\<in>set ds'. d \<le> 0) \<longleftrightarrow> sorted (v # takeWhile (\<lambda>v. v \<le> 0) vs)"
      using 3(1) rest unfolding pk by (rule Cons.IH)
    moreover have "sorted (peak # takeWhile (\<lambda>v. v \<le> 0) (v # vs)) \<longleftrightarrow>
        sorted (v # takeWhile (\<lambda>v. v \<le> 0) vs)"
      using 3 by auto
    ultimately show ?thesis using ds by simp
  next
    case 4
    then have pk: "?pk = peak" by simp
    have "d = 0" using dv pk 4 by simp
    moreover have "(\<forall>d\<in>set ds'. d \<le> 0) \<longleftrightarrow> sorted (peak # takeWhile (\<lambda>v. v \<le> 0) vs)"
      using Cons.prems(1) rest unfolding pk by (rule Cons.IH)
    moreover have "sorted (peak # takeWhile (\<lambda>v. v \<le> 0) (v # vs)) \<longleftrightarrow>
        sorted (peak # takeWhile (\<lambda>v. v \<le> 0) vs)"
      using 4 by auto
    ultimately show ?thesis using ds by simp
  next
    case 5
    then have pk: "?pk = peak" by simp
    have "1 < v / peak" using 5 Cons.prems(1) by (simp add: field_simps)
    then have "\<not> d \<le> 0" using dv pk by simp
    moreover have "\<not> sorted (peak # takeWhile (\<lambda>v. v \<le> 0) (v # vs))"
      using 5 Cons.prems(1) by auto
    ultimately show ?thesis using ds by simp
  qed
qed

text \<open>Where the series loop divides by no zero peak, the two loops agree.\<close>

lemma drawdown_loops_agree:
  "drawdownSeries_loop peak vs = map Some ds \<Longrightarrow>
   maxDrawdown_loop peak (Some m) vs = Some (Min (insert m (set ds)))"
proof (induction vs arbitrary: peak m ds)
  case Nil
  then show ?case by simp
next
  case (Cons v vs)
  let ?pk = "if v > peak then v else peak"
  let ?dd = "v / ?pk - 1"
  let ?m = "if ?dd < m then ?dd else m"
  from Cons.prems obtain d ds' where
    ds: "ds = d # ds'" and
    d: "map_option (\<lambda>q. q - 1) (js_div v ?pk) = Some d" and
    rest: "drawdownSeries_loop ?pk vs = map Some ds'"
    by (cases ds) (simp_all add: Let_def)
  have pk0: "?pk \<noteq> 0" using d by (auto simp add: js_div_def split: if_splits)
  have dv: "d = ?dd" using d pk0 by (auto simp add: js_div_def)
  from Cons.IH [OF rest, of ?m] have
    ih: "maxDrawdown_loop ?pk (Some ?m) vs = Some (Min (insert ?m (set ds')))" .
  have "Min (insert ?m (set ds')) = Min (insert m (set (?dd # ds')))"
  proof -
    have "Min (insert ?m (set ds')) = Min (insert (min ?dd m) (set ds'))"
      by (simp add: min_def)
    also have "\<dots> = Min (insert m (insert ?dd (set ds')))"
      by (cases "set ds' = {}") (simp_all add: min.commute min.left_commute min.assoc)
    finally show ?thesis by simp
  qed
  then show ?case
    using ih lower_drawdown_nonzero [OF pk0, of v m] unfolding ds dv by (simp add: Let_def)
qed

text \<open>
  Claim C10, amended. The drawdown series has the length of its input, for every series.
  Its elements are all finite numbers exactly when no 0 stands among the values before
  the first positive one. When they are, every drawdown is at most 0 exactly when the
  values before the first positive one never decrease (so whenever the series starts with
  a positive value), and for a non-empty series the least drawdown is the value
  \<open>maxDrawdown\<close> returns.
\<close>

theorem drawdownSeries_length_nonpositive_min:
  "length (drawdownSeries series) = length series \<and>
   ((\<exists>ds. drawdownSeries series = map Some ds) \<longleftrightarrow>
      0 \<notin> set (takeWhile (\<lambda>v. v \<le> 0) series)) \<and>
   (drawdownSeries series = map Some ds \<longrightarrow>
      ((\<forall>d\<in>set ds. d \<le> 0) \<longleftrightarrow> sorted (takeWhile (\<lambda>v. v \<le> 0) series)) \<and>
      (series \<noteq> [] \<longrightarrow> maxDrawdown series = Some (Min (set ds))))"
proof (intro conjI impI)
  have "length (drawdownSeries_loop peak vs) = length vs" for peak vs
    by (induction vs arbitrary: peak) (simp_all add: Let_def)
  then show "length (drawdownSeries series) = length series"
    by (simp add: drawdownSeries_def split: list.splits)
next
  show "(\<exists>ds. drawdownSeries series = map Some ds) \<longleftrightarrow>
      0 \<notin> set (takeWhile (\<lambda>v. v \<le> 0) series)"
    unfolding all_Some_iff
  proof (cases series)
    case Nil
    then show "None \<notin> set (drawdownSeries series) \<longleftrightarrow>
        0 \<notin> set (takeWhile (\<lambda>v. v \<le> 0) series)"
      by (simp add: drawdownSeries_def)
  next
    case (Cons v0 vs)
    consider "0 < v0" | "v0 = 0" | "v0 < 0" by linarith
    then show "None \<notin> set (drawdownSeries series) \<longleftrightarrow>
        0 \<notin> set (takeWhile (\<lambda>v. v \<le> 0) series)"
    proof cases
      case 1
      from drawdown_loops_positive [OF 1, of "v0 # vs"]
      have "None \<notin> set (drawdownSeries_loop v0 (v0 # vs))" by auto
      then show ?thesis using 1 unfolding Cons by (simp add: drawdownSeries_def)
    next
      case 2
      then show ?thesis unfolding Cons by (simp add: drawdownSeries_def js_div_def)
    next
      case 3
      from drawdownSeries_loop_finite [OF 3, of "v0 # vs"]
      show ?thesis unfolding Cons by (simp add: drawdownSeries_def)
    qed
  qed
next
  assume fin: "drawdownSeries series = map Some ds"
  show "(\<forall>d\<in>set ds. d \<le> 0) \<longleftrightarrow> sorted (takeWhile (\<lambda>v. v \<le> 0) series)"
  proof (cases series)
    case Nil
    with fin show ?thesis by (simp add: drawdownSeries_def)
  next
    case (Cons v0 vs)
    from fin have loop: "drawdownSeries_loop v0 (v0 # vs) = map Some ds"
      unfolding Cons by (simp add: drawdownSeries_def)
    consider "0 < v0" | "v0 = 0" | "v0 < 0" by linarith
    then show ?thesis
    proof cases
      case 1
      from drawdown_loops_positive [OF 1, of "v0 # vs"] obtain ds' where
        "drawdownSeries_loop v0 (v0 # vs) = map Some ds'" "\<forall>d\<in>set ds'. d \<le> 0" by blast
      with loop have "\<forall>d\<in>set ds. d \<le> 0" by (simp add: inj_map_eq_map)
      then show ?thesis using 1 unfolding Cons by simp
    next
      case 2
      with loop have False by (cases ds) (simp_all add: js_div_def)
      then show ?thesis ..
    next
      case 3
      from drawdownSeries_loop_sign [OF 3 loop]
      show ?thesis using 3 unfolding Cons by simp
    qed
  qed
next
  assume fin: "drawdownSeries series = map Some ds" and ne: "series \<noteq> []"
  from ne obtain v0 vs where s: "series = v0 # vs" by (cases series) auto
  from fin have loop: "drawdownSeries_loop v0 (v0 # vs) = map Some ds"
    unfolding s by (simp add: drawdownSeries_def)
  then obtain d ds' where ds: "ds = d # ds'" and
    d: "map_option (\<lambda>q. q - 1) (js_div v0 v0) = Some d"
    by (cases ds) (simp_all add: Let_def)
  then have "d = 0" by (auto simp add: js_div_def split: if_splits)
  then have "insert 0 (set ds) = set ds" unfolding ds by auto
  with drawdown_loops_agree [OF loop, of 0]
  show "maxDrawdown series = Some (Min (set ds))"
    unfolding s by (simp add: maxDrawdown_def)
qed

theorem drawdownSeries_witness:
  "length (drawdownSeries [100, 110, 99]) = 3 \<and>
   drawdownSeries [100, 110, 99] = map Some [0, 0, - (1 / 10)] \<and>
   list_all (\<lambda>d. d \<le> 0) [0, 0, - (1 / 10) :: real] \<and>
   maxDrawdown [100, 110, 99] = Some (- (1 / 10)) \<and>
   drawdownSeries [- 2, - 1, 3, 1] = map Some [0, 0, 0, - (2 / 3)] \<and>
   sorted (takeWhile (\<lambda>v. v \<le> 0) [- 2, - 1, 3, 1 :: real]) \<and>
   maxDrawdown [- 2, - 1, 3, 1] = Some (- (2 / 3)) \<and>
   drawdownSeries [- 1, - 2] = map Some [0, 1] \<and>
   \<not> sorted (takeWhile (\<lambda>v. v \<le> 0) [- 1, - 2 :: real]) \<and>
   maxDrawdown [- 1, - 2] = Some 0"
  using drawdownSeries_length_nonpositive_min [of "[100, 110, 99]" "[0, 0, - (1 / 10)]"]
    drawdownSeries_length_nonpositive_min [of "[- 2, - 1, 3, 1]" "[0, 0, 0, - (2 / 3)]"]
    drawdownSeries_length_nonpositive_min [of "[- 1, - 2]" "[0, 1]"]
  by (simp add: drawdownSeries_def js_div_def)

text \<open>
  Claim C10 as stated ("for every series every element is at most 0, and the minimum
  element equals \<open>maxDrawdown\<close> for every non-empty series") fails on a series of
  decreasing negative values, where the running peak is negative and the quotient exceeds
  1, and on a series that starts with 0, where the first drawdown is \<open>0 / 0 - 1\<close>, which is
  \<open>NaN\<close>, while \<open>maxDrawdown\<close> returns 0.
\<close>

theorem drawdownSeries_positive_element:
  "drawdownSeries [- 1, - 2] = [Some 0, Some 1] \<and> \<not> (1 :: real) \<le> 0 \<and>
   drawdownSeries [0] = [None] \<and> maxDrawdown [0] = Some 0"
  by (simp add: drawdownSeries_def maxDrawdown_def js_div_def lower_drawdown_def)

subsection \<open>The normalized probability table\<close>

lemma foldl_add_sum_list: "foldl (\<lambda>acc p. acc + p) a xs = a + sum_list (xs :: real list)"
  by (induction xs arbitrary: a) simp_all

lemma cumProbs_of_snoc:
  "cumProbs_of (xs @ [x]) =
     cumProbs_of xs @ [(if cumProbs_of xs \<noteq> [] then last (cumProbs_of xs) else 0) + x]"
  by (simp add: cumProbs_of_def)

lemma cumProbs_of_length: "length (cumProbs_of xs) = length xs"
  by (induction xs rule: rev_induct) (simp_all add: cumProbs_of_snoc, simp add: cumProbs_of_def)

lemma cumProbs_of_last: "xs \<noteq> [] \<Longrightarrow> last (cumProbs_of xs) = sum_list xs"
proof (induction xs rule: rev_induct)
  case Nil
  then show ?case by simp
next
  case (snoc x xs)
  show ?case
  proof (cases "xs = []")
    case True
    then show ?thesis by (simp add: cumProbs_of_def)
  next
    case False
    then have "cumProbs_of xs \<noteq> []" using cumProbs_of_length [of xs] by auto
    then show ?thesis using snoc.IH [OF False] by (simp add: cumProbs_of_snoc)
  qed
qed

lemma sorted_le_last: "sorted ys \<Longrightarrow> y \<in> set ys \<Longrightarrow> y \<le> last (ys :: real list)"
proof -
  assume a: "sorted ys" "y \<in> set ys"
  then obtain i where i: "i < length ys" "ys ! i = y" by (auto simp: in_set_conv_nth)
  then have "ys ! i \<le> ys ! (length ys - 1)" using a(1) by (intro sorted_nth_mono) auto
  moreover have "ys \<noteq> []" using a(2) by auto
  ultimately show ?thesis using i by (simp add: last_conv_nth)
qed

lemma cumProbs_of_sorted: "\<forall>x\<in>set xs. 0 \<le> x \<Longrightarrow> sorted (cumProbs_of xs)"
proof (induction xs rule: rev_induct)
  case Nil
  then show ?case by (simp add: cumProbs_of_def)
next
  case (snoc x xs)
  then have s: "sorted (cumProbs_of xs)" and x: "0 \<le> x" by simp_all
  have "\<forall>y\<in>set (cumProbs_of xs). y \<le> last (cumProbs_of xs) + x"
    using sorted_le_last [OF s] x by fastforce
  then show ?case using s by (auto simp add: cumProbs_of_snoc sorted_append)
qed

lemma probs_of_nonneg: "\<forall>x\<in>set (probs_of buckets). 0 \<le> x"
  by (auto simp: probs_of_def)

lemma probSum_of_pos: "0 < probSum_of (probs_of buckets)"
proof -
  have "0 \<le> sum_list (probs_of buckets)"
    using probs_of_nonneg by (intro sum_list_nonneg) auto
  then show ?thesis by (auto simp add: probSum_of_def foldl_add_sum_list Let_def)
qed

lemma normProbs_of_nonneg: "\<forall>x\<in>set (normProbs_of (probs_of buckets)). 0 \<le> x"
  using probs_of_nonneg [of buckets] probSum_of_pos [of buckets]
  by (auto simp: normProbs_of_def)

lemma sum_list_normProbs:
  "sum_list (normProbs_of probs) = sum_list probs / probSum_of probs"
proof -
  have "sum_list (map (\<lambda>p. p / c) xs) = sum_list xs / c" for c :: real and xs
    by (induction xs) (simp_all add: add_divide_distrib)
  then show ?thesis by (simp add: normProbs_of_def)
qed

lemma sum_list_probs_pos:
  assumes "\<exists>b\<in>set buckets. 0 < b_p b"
  shows "0 < sum_list (probs_of buckets)"
proof -
  from assms obtain b where b: "b \<in> set buckets" "0 < b_p b" by blast
  then have "max 0 (b_p b) \<in> set (probs_of buckets)"
    unfolding probs_of_def set_map by (intro imageI)
  then have "max 0 (b_p b) \<le> sum_list (probs_of buckets)"
    using probs_of_nonneg [of buckets] by (intro member_le_sum_list) auto
  with b(2) show ?thesis by simp
qed

text \<open>
  Claim C4, amended. For every bucket list the cumulative table has one entry per bucket
  and is non-decreasing. When at least one bucket has a positive weight, the normalized
  weights sum to 1 and the last cumulative value is 1 (exactly, in exact arithmetic, hence
  within \<open>1e-9\<close>).
\<close>

theorem normalized_table:
  "length (cumProbs_of (normProbs_of (probs_of buckets))) = length buckets \<and>
   sorted (cumProbs_of (normProbs_of (probs_of buckets))) \<and>
   ((\<exists>b\<in>set buckets. 0 < b_p b) \<longrightarrow>
      sum_list (normProbs_of (probs_of buckets)) = 1 \<and>
      last (cumProbs_of (normProbs_of (probs_of buckets))) = 1 \<and>
      \<bar>sum_list (normProbs_of (probs_of buckets)) - 1\<bar> \<le> 1 / 10 ^ 9 \<and>
      \<bar>last (cumProbs_of (normProbs_of (probs_of buckets))) - 1\<bar> \<le> 1 / 10 ^ 9)"
proof (intro conjI impI)
  show "length (cumProbs_of (normProbs_of (probs_of buckets))) = length buckets"
    by (simp add: cumProbs_of_length normProbs_of_def probs_of_def)
  show "sorted (cumProbs_of (normProbs_of (probs_of buckets)))"
    using normProbs_of_nonneg by (rule cumProbs_of_sorted)
  assume pos: "\<exists>b\<in>set buckets. 0 < b_p b"
  have sp: "0 < sum_list (probs_of buckets)" using pos by (rule sum_list_probs_pos)
  then have "probSum_of (probs_of buckets) = sum_list (probs_of buckets)"
    by (simp add: probSum_of_def foldl_add_sum_list Let_def)
  then show one: "sum_list (normProbs_of (probs_of buckets)) = 1"
    using sp by (simp add: sum_list_normProbs)
  have "buckets \<noteq> []" using pos by auto
  then have "normProbs_of (probs_of buckets) \<noteq> []" by (simp add: normProbs_of_def probs_of_def)
  then show last1: "last (cumProbs_of (normProbs_of (probs_of buckets))) = 1"
    using one by (simp add: cumProbs_of_last)
  show "\<bar>sum_list (normProbs_of (probs_of buckets)) - 1\<bar> \<le> 1 / 10 ^ 9"
    unfolding one by simp
  show "\<bar>last (cumProbs_of (normProbs_of (probs_of buckets))) - 1\<bar> \<le> 1 / 10 ^ 9"
    unfolding last1 by simp
qed

text \<open>
  Claim C4 as stated ("for every non-empty bucket list the normalized weights sum to 1")
  fails when no weight is positive: the sum of the weights is replaced by 1, every
  normalized weight is 0, and so are their sum and the last cumulative value.
\<close>

theorem zero_weights_sum_to_zero:
  "[zero_weight_bucket] \<noteq> [] \<and>
   sum_list (normProbs_of (probs_of [zero_weight_bucket])) = 0 \<and>
   last (cumProbs_of (normProbs_of (probs_of [zero_weight_bucket]))) = 0 \<and>
   \<not> \<bar>(0 :: real) - 1\<bar> \<le> 1 / 10 ^ 9"
  by (simp add: zero_weight_bucket_def probs_of_def normProbs_of_def cumProbs_of_def probSum_of_def)

theorem normalized_table_witness:
  "list_ex (\<lambda>b. 0 < b_p b) [loss_bucket, win_bucket] \<and>
   sum_list (normProbs_of (probs_of [loss_bucket, win_bucket])) = 1 \<and>
   last (cumProbs_of (normProbs_of (probs_of [loss_bucket, win_bucket]))) = 1"
  using normalized_table [of "[loss_bucket, win_bucket]"]
  by (simp add: loss_bucket_def win_bucket_def)

subsection \<open>Sampling\<close>

lemma findIndex_ge: "- 1 \<le> findIndex P xs"
  by (induction xs) (simp_all add: Let_def)

lemma findIndex_none: "findIndex P xs = - 1 \<longleftrightarrow> (\<forall>j<length xs. \<not> P (xs ! j))"
proof (induction xs)
  case Nil
  then show ?case by simp
next
  case (Cons x xs)
  have ge: "- 1 \<le> findIndex P xs" by (rule findIndex_ge)
  show ?case
  proof (cases "P x")
    case True
    then show ?thesis by auto
  next
    case False
    have "(\<forall>j<length (x # xs). \<not> P ((x # xs) ! j)) \<longleftrightarrow> (\<forall>j<length xs. \<not> P (xs ! j))"
      using False by (auto simp: nth_Cons split: nat.splits)
    then show ?thesis using False Cons.IH ge by (auto simp: Let_def)
  qed
qed

lemma findIndex_found:
  "findIndex P xs \<noteq> - 1 \<Longrightarrow>
     0 \<le> findIndex P xs \<and> nat (findIndex P xs) < length xs \<and> P (xs ! nat (findIndex P xs)) \<and>
     (\<forall>j<nat (findIndex P xs). \<not> P (xs ! j))"
proof (induction xs)
  case Nil
  then show ?case by simp
next
  case (Cons x xs)
  show ?case
  proof (cases "P x")
    case True
    then show ?thesis by simp
  next
    case False
    with Cons.prems have ne: "findIndex P xs \<noteq> - 1" by (auto simp: Let_def split: if_splits)
    note ih = Cons.IH [OF ne]
    have eq: "findIndex P (x # xs) = findIndex P xs + 1" using False ne by (simp add: Let_def)
    have "0 \<le> findIndex P xs" using ih by blast
    then have n: "nat (findIndex P xs + 1) = Suc (nat (findIndex P xs))" by linarith
    show ?thesis unfolding eq n using ih False
      by (auto simp: nth_Cons split: nat.splits)
  qed
qed

text \<open>
  Claim C3. With a non-empty bucket list and a cumulative table of the same length, a
  trade draws \<open>u\<close> and takes the bucket at the first index \<open>k\<close> with
  \<open>u \<le> cumProbs ! k\<close>, or the last bucket when \<open>u\<close> exceeds every cumulative value.
  A point bucket yields its value (0 when absent) and leaves the generator after one
  draw; a uniform bucket draws \<open>v\<close> next, yields \<open>lo + (hi - lo) * v\<close> and leaves the
  generator after two draws.
\<close>

theorem sample_trade_outcome:
  assumes "buckets \<noteq> []" and "length cumProbs = length buckets"
  shows "\<exists>k<length buckets.
     (let u = fst (rng_next env g); g1 = snd (rng_next env g);
          v = fst (rng_next env g1); g2 = snd (rng_next env g1);
          bucket = buckets ! k
      in ((u \<le> cumProbs ! k \<and> (\<forall>j<k. \<not> u \<le> cumProbs ! j)) \<or>
          ((\<forall>j<length cumProbs. \<not> u \<le> cumProbs ! j) \<and> k = length buckets - 1)) \<and>
         sample_trade env buckets cumProbs g =
           (case b_type bucket of
              Point \<Rightarrow> Inr (case b_v bucket of Some x \<Rightarrow> x | None \<Rightarrow> 0, g1)
            | Uniform \<Rightarrow>
                Inr ((case b_lo bucket of Some x \<Rightarrow> x | None \<Rightarrow> 0) +
                     ((case b_hi bucket of Some x \<Rightarrow> x | None \<Rightarrow> 0) -
                      (case b_lo bucket of Some x \<Rightarrow> x | None \<Rightarrow> 0)) * v, g2)))"
proof -
  let ?u = "fst (rng_next env g)"
  let ?idx = "findIndex (\<lambda>p. ?u \<le> p) cumProbs"
  let ?i = "if ?idx = - 1 then int (length buckets) - 1 else ?idx"
  let ?k = "nat ?i"
  have len: "0 < length buckets" using assms(1) by simp
  have range: "0 \<le> ?i \<and> ?i < int (length buckets)"
  proof (cases "?idx = - 1")
    case True
    then show ?thesis using len by simp
  next
    case False
    from findIndex_found [OF False] show ?thesis using False assms(2) by auto
  qed
  then have k: "?k < length buckets" by linarith
  have get: "array_get buckets ?i = Some (buckets ! ?k)"
    using range unfolding array_get_def by simp
  have pick: "(?u \<le> cumProbs ! ?k \<and> (\<forall>j<?k. \<not> ?u \<le> cumProbs ! j)) \<or>
          ((\<forall>j<length cumProbs. \<not> ?u \<le> cumProbs ! j) \<and> ?k = length buckets - 1)"
  proof (cases "?idx = - 1")
    case True
    then have "\<forall>j<length cumProbs. \<not> ?u \<le> cumProbs ! j" by (simp add: findIndex_none)
    moreover have "?k = length buckets - 1" using True len by simp
    ultimately show ?thesis by blast
  next
    case False
    from findIndex_found [OF False] show ?thesis using False by simp
  qed
  have val: "sample_trade env buckets cumProbs g =
           (case b_type (buckets ! ?k) of
              Point \<Rightarrow> Inr (case b_v (buckets ! ?k) of Some x \<Rightarrow> x | None \<Rightarrow> 0, snd (rng_next env g))
            | Uniform \<Rightarrow>
                Inr ((case b_lo (buckets ! ?k) of Some x \<Rightarrow> x | None \<Rightarrow> 0) +
                     ((case b_hi (buckets ! ?k) of Some x \<Rightarrow> x | None \<Rightarrow> 0) -
                      (case b_lo (buckets ! ?k) of Some x \<Rightarrow> x | None \<Rightarrow> 0)) *
                       fst (rng_next env (snd (rng_next env g))),
                     snd (rng_next env (snd (rng_next env g)))))"
    unfolding sample_trade_def Let_def case_prod_beta get
    by (simp split: BucketType.splits)
  show ?thesis
    unfolding Let_def using k pick val by blast
qed

theorem sample_trade_witness:
  "[loss_bucket, win_bucket] \<noteq> [] \<and> length [1 / 2, 1 :: real] = length [loss_bucket, win_bucket] \<and>
   sample_trade random_high [loss_bucket, win_bucket] [1 / 2, 1] (MathRandom 0) =
     Inr (5 / 2, MathRandom 2) \<and>
   sample_trade random_low [loss_bucket, win_bucket] [1 / 2, 1] (MathRandom 0) =
     Inr (- 1, MathRandom 1)"
  using sample_trade_outcome [of "[loss_bucket, win_bucket]" "[1 / 2, 1]" random_high "MathRandom 0"]
  by (simp add: sample_trade_def array_get_def loss_bucket_def win_bucket_def random_high_def
        random_low_def)

subsection \<open>Progressive exposure\<close>

lemma safe_threshold_explicit:
  "safe_threshold threshold = (if threshold < 2 then 1 else \<lfloor>threshold\<rfloor>)"
proof (cases "threshold < 2")
  case True
  have "trunc_real threshold \<le> 1"
  proof (cases "0 \<le> threshold")
    case True
    have "\<lfloor>threshold\<rfloor> < 2" using \<open>threshold < 2\<close> by (simp add: floor_less_iff)
    then show ?thesis using True by (simp add: trunc_real_def)
  next
    case False
    then have "threshold \<le> of_int 0" by simp
    then have "\<lceil>threshold\<rceil> \<le> 0" by (rule ceiling_le)
    then show ?thesis using False by (simp add: trunc_real_def)
  qed
  then show ?thesis using True by (simp add: safe_threshold_def)
next
  case False
  then have "of_int 2 \<le> threshold" by simp
  then have "2 \<le> \<lfloor>threshold\<rfloor>" by (simp only: le_floor_iff)
  then show ?thesis using False by (simp add: safe_threshold_def trunc_real_def)
qed

lemma halve_floor:
  fixes m r :: real
  assumes "0 \<le> m"
  shows "max m (max m (r / 2) / 2 ^ k) = max m (r / 2 ^ Suc k)"
proof -
  have "(1 :: real) \<le> 2 ^ k" by simp
  then have "m * 1 \<le> m * 2 ^ k" using assms by (intro mult_left_mono) simp_all
  then have le: "m / 2 ^ k \<le> m" by (simp add: divide_le_eq)
  have r: "r / 2 / 2 ^ k = r / 2 ^ Suc k" by simp
  show ?thesis
  proof (cases "m \<le> r / 2")
    case True
    then have "max m (r / 2) = r / 2" by simp
    then show ?thesis using r by simp
  next
    case False
    then have lt: "r / 2 < m" by simp
    then have "r / 2 / 2 ^ k \<le> m / 2 ^ k" by (intro divide_right_mono) simp_all
    then have "r / 2 ^ Suc k \<le> m" using le r by linarith
    moreover have "max m (r / 2) = m" using lt by simp
    ultimately show ?thesis using le by (simp add: max_def)
  qed
qed

lemma all_losses_halve:
  assumes "safe_threshold (pg_lossStreakThreshold pg) = 1"
  shows "outcomes \<noteq> [] \<Longrightarrow> \<forall>s\<in>set outcomes. s < 0 \<Longrightarrow>
     0 \<le> pg_minRisk pg \<or> 2 * pg_minRisk pg < currentRisk x \<Longrightarrow>
     foldl (\<lambda>x sample. progressive_update (Some pg) sample x) x outcomes =
       \<lparr>currentRisk = max (pg_minRisk pg) (currentRisk x / 2 ^ length outcomes),
        lossStreak = 0, winStreak = 0\<rparr>"
proof (induction outcomes arbitrary: x)
  case Nil
  then show ?case by simp
next
  case (Cons s rest)
  let ?m = "pg_minRisk pg"
  let ?r = "currentRisk x"
  let ?x1 = "\<lparr>currentRisk = max ?m (?r / 2), lossStreak = 0, winStreak = 0\<rparr>"
  have neg: "s < 0" using Cons.prems(2) by simp
  have step: "progressive_update (Some pg) s x = ?x1"
    using neg assms(1) by (simp add: progressive_update_def Let_def)
  show ?case
  proof (cases "rest = []")
    case True
    then show ?thesis using step by simp
  next
    case False
    have negs: "\<forall>s\<in>set rest. s < 0" using Cons.prems(2) by simp
    have cond: "0 \<le> ?m \<or> 2 * ?m < currentRisk ?x1"
      using Cons.prems(3) by (auto simp add: max_def)
    have eq: "max ?m (max ?m (?r / 2) / 2 ^ length rest) = max ?m (?r / 2 ^ Suc (length rest))"
    proof (cases "0 \<le> ?m")
      case True
      then show ?thesis by (rule halve_floor)
    next
      case False
      with Cons.prems(3) have "2 * ?m < ?r" by simp
      then have "max ?m (?r / 2) = ?r / 2" by simp
      then show ?thesis by simp
    qed
    from Cons.IH [OF False negs cond] show ?thesis using step eq by simp
  qed
qed

text \<open>
  Claim C5, amended. A threshold is coerced to the whole number \<open>\<lfloor>threshold\<rfloor>\<close>, and to 1
  when it is below 2. A positive outcome increments the win streak and resets the loss
  streak; when the win streak reaches its threshold the risk doubles, capped at the
  maximum, and the win streak resets. A negative outcome does the same for the loss
  streak, halving the risk, floored at the minimum. A zero outcome resets both streaks.
  With a loss threshold of 1, only negative outcomes, and a floor that is not negative or
  lies below half the base risk, the risk after \<open>n \<ge> 1\<close> trades is the base risk halved
  \<open>n\<close> times, or the floor once that is larger, and a risk that has reached the floor
  stays there at the next loss.
\<close>

theorem progressive_transitions:
  "safe_threshold threshold = (if threshold < 2 then 1 else \<lfloor>threshold\<rfloor>) \<and>
   (0 < sample \<longrightarrow>
      progressive_update (Some pg) sample x =
        (if (if pg_winStreakThreshold pg < 2 then 1 else \<lfloor>pg_winStreakThreshold pg\<rfloor>)
              \<le> int (winStreak x + 1)
         then \<lparr>currentRisk = min (pg_maxRisk pg) (currentRisk x * 2), lossStreak = 0,
               winStreak = 0\<rparr>
         else \<lparr>currentRisk = currentRisk x, lossStreak = 0, winStreak = winStreak x + 1\<rparr>)) \<and>
   (sample < 0 \<longrightarrow>
      progressive_update (Some pg) sample x =
        (if (if pg_lossStreakThreshold pg < 2 then 1 else \<lfloor>pg_lossStreakThreshold pg\<rfloor>)
              \<le> int (lossStreak x + 1)
         then \<lparr>currentRisk = max (pg_minRisk pg) (currentRisk x / 2), lossStreak = 0,
               winStreak = 0\<rparr>
         else \<lparr>currentRisk = currentRisk x, lossStreak = lossStreak x + 1, winStreak = 0\<rparr>)) \<and>
   (sample = 0 \<longrightarrow>
      progressive_update (Some pg) sample x =
        \<lparr>currentRisk = currentRisk x, lossStreak = 0, winStreak = 0\<rparr>) \<and>
   (pg_lossStreakThreshold pg = 1 \<and>
    (0 \<le> pg_minRisk pg \<or> 2 * pg_minRisk pg < riskFraction) \<and>
    outcomes \<noteq> [] \<and> (\<forall>s\<in>set outcomes. s < 0) \<longrightarrow>
      exposure_after (Some pg) riskFraction outcomes =
        \<lparr>currentRisk = max (pg_minRisk pg) (riskFraction / 2 ^ length outcomes),
         lossStreak = 0, winStreak = 0\<rparr> \<and>
      (currentRisk (exposure_after (Some pg) riskFraction outcomes) = pg_minRisk pg \<and>
       sample < 0 \<longrightarrow>
         currentRisk (exposure_after (Some pg) riskFraction (outcomes @ [sample])) =
           pg_minRisk pg))"
proof (intro conjI impI)
  show "safe_threshold threshold = (if threshold < 2 then 1 else \<lfloor>threshold\<rfloor>)"
    by (rule safe_threshold_explicit)
next
  assume "0 < sample"
  then show "progressive_update (Some pg) sample x =
        (if (if pg_winStreakThreshold pg < 2 then 1 else \<lfloor>pg_winStreakThreshold pg\<rfloor>)
              \<le> int (winStreak x + 1)
         then \<lparr>currentRisk = min (pg_maxRisk pg) (currentRisk x * 2), lossStreak = 0,
               winStreak = 0\<rparr>
         else \<lparr>currentRisk = currentRisk x, lossStreak = 0, winStreak = winStreak x + 1\<rparr>)"
    unfolding safe_threshold_explicit [symmetric]
    by (simp add: progressive_update_def Let_def)
next
  assume "sample < 0"
  then show "progressive_update (Some pg) sample x =
        (if (if pg_lossStreakThreshold pg < 2 then 1 else \<lfloor>pg_lossStreakThreshold pg\<rfloor>)
              \<le> int (lossStreak x + 1)
         then \<lparr>currentRisk = max (pg_minRisk pg) (currentRisk x / 2), lossStreak = 0,
               winStreak = 0\<rparr>
         else \<lparr>currentRisk = currentRisk x, lossStreak = lossStreak x + 1, winStreak = 0\<rparr>)"
    unfolding safe_threshold_explicit [symmetric]
    by (simp add: progressive_update_def Let_def)
next
  assume "sample = 0"
  then show "progressive_update (Some pg) sample x =
        \<lparr>currentRisk = currentRisk x, lossStreak = 0, winStreak = 0\<rparr>"
    by (simp add: progressive_update_def)
next
  assume a: "pg_lossStreakThreshold pg = 1 \<and>
    (0 \<le> pg_minRisk pg \<or> 2 * pg_minRisk pg < riskFraction) \<and>
    outcomes \<noteq> [] \<and> (\<forall>s\<in>set outcomes. s < 0)"
  then have thr: "safe_threshold (pg_lossStreakThreshold pg) = 1"
    by (simp add: safe_threshold_explicit)
  from a all_losses_halve [OF thr, of outcomes
      "\<lparr>currentRisk = riskFraction, lossStreak = 0, winStreak = 0\<rparr>"]
  show closed: "exposure_after (Some pg) riskFraction outcomes =
        \<lparr>currentRisk = max (pg_minRisk pg) (riskFraction / 2 ^ length outcomes),
         lossStreak = 0, winStreak = 0\<rparr>"
    by (simp add: exposure_after_def)
  assume b: "currentRisk (exposure_after (Some pg) riskFraction outcomes) = pg_minRisk pg \<and>
       sample < 0"
  have floor0: "0 \<le> pg_minRisk pg"
  proof (rule ccontr)
    assume n: "\<not> 0 \<le> pg_minRisk pg"
    with a have lt: "2 * pg_minRisk pg < riskFraction" by simp
    have "pg_minRisk pg < riskFraction / 2 ^ length outcomes"
    proof (cases "0 \<le> riskFraction")
      case True
      then have "0 \<le> riskFraction / 2 ^ length outcomes" by simp
      with n show ?thesis by linarith
    next
      case False
      have "1 \<le> length outcomes" using a by (cases outcomes) simp_all
      then have "(2 :: real) ^ 1 \<le> 2 ^ length outcomes"
        by (intro power_increasing) simp_all
      then have "riskFraction / 2 ^ 1 \<le> riskFraction / 2 ^ length outcomes"
        using False by (intro divide_left_mono_neg) simp_all
      then have "riskFraction / 2 \<le> riskFraction / 2 ^ length outcomes"
        by (simp only: power_one_right)
      moreover have "pg_minRisk pg < riskFraction / 2" using lt by linarith
      ultimately show ?thesis by linarith
    qed
    with b closed show False by simp
  qed
  have "progressive_update (Some pg) sample (exposure_after (Some pg) riskFraction outcomes) =
      \<lparr>currentRisk = max (pg_minRisk pg) (pg_minRisk pg / 2), lossStreak = 0, winStreak = 0\<rparr>"
    using b thr by (simp add: progressive_update_def Let_def closed)
  then show "currentRisk (exposure_after (Some pg) riskFraction (outcomes @ [sample])) =
           pg_minRisk pg"
    using floor0 by (simp add: exposure_after_def)
qed

theorem progressive_witness:
  "progressive_update (Some demo_policy) 1 \<lparr>currentRisk = 1 / 50, lossStreak = 0, winStreak = 1\<rparr> =
     \<lparr>currentRisk = 1 / 25, lossStreak = 0, winStreak = 0\<rparr> \<and>
   progressive_update (Some demo_policy) 1 \<lparr>currentRisk = 1 / 50, lossStreak = 0, winStreak = 0\<rparr> =
     \<lparr>currentRisk = 1 / 50, lossStreak = 0, winStreak = 1\<rparr> \<and>
   progressive_update (Some demo_policy) (- 1) \<lparr>currentRisk = 1 / 50, lossStreak = 0, winStreak = 1\<rparr> =
     \<lparr>currentRisk = 1 / 100, lossStreak = 0, winStreak = 0\<rparr> \<and>
   progressive_update (Some demo_policy) 0 \<lparr>currentRisk = 1 / 50, lossStreak = 0, winStreak = 1\<rparr> =
     \<lparr>currentRisk = 1 / 50, lossStreak = 0, winStreak = 0\<rparr> \<and>
   pg_lossStreakThreshold demo_policy = 1 \<and> 0 \<le> pg_minRisk demo_policy \<and>
   list_all (\<lambda>s. s < 0) [- 1, - 1, - 1 :: real] \<and>
   exposure_after (Some demo_policy) (1 / 25) [- 1, - 1, - 1] =
     \<lparr>currentRisk = 1 / 100, lossStreak = 0, winStreak = 0\<rparr> \<and>
   currentRisk (exposure_after (Some demo_policy) (1 / 25) ([- 1, - 1, - 1] @ [- 1])) = 1 / 100 \<and>
   pg_lossStreakThreshold negative_floor_policy = 1 \<and>
   2 * pg_minRisk negative_floor_policy < 1 / 25 \<and>
   exposure_after (Some negative_floor_policy) (1 / 25) [- 1, - 1] =
     \<lparr>currentRisk = 1 / 100, lossStreak = 0, winStreak = 0\<rparr>"
  using progressive_transitions [where pg = demo_policy and sample = 1
          and x = "\<lparr>currentRisk = 1 / 50, lossStreak = 0, winStreak = 1\<rparr>"]
        progressive_transitions [where pg = negative_floor_policy and sample = "- 1"
          and outcomes = "[- 1, - 1]" and riskFraction = "1 / 25"]
        progressive_transitions [where pg = demo_policy and sample = 1
          and x = "\<lparr>currentRisk = 1 / 50, lossStreak = 0, winStreak = 0\<rparr>"]
        progressive_transitions [where pg = demo_policy and sample = "- 1"
          and x = "\<lparr>currentRisk = 1 / 50, lossStreak = 0, winStreak = 1\<rparr>"
          and outcomes = "[- 1, - 1, - 1]" and riskFraction = "1 / 25"]
        progressive_transitions [where pg = demo_policy and sample = 0
          and x = "\<lparr>currentRisk = 1 / 50, lossStreak = 0, winStreak = 1\<rparr>"]
  by (simp add: demo_policy_def negative_floor_policy_def)

text \<open>
  Claim C5 as stated lets the floor be any number. With the floor \<open>-1\<close> and the base risk
  \<open>-8\<close> the first loss brings the risk to the floor, and the second takes it away again,
  to \<open>-1/2\<close>.
\<close>

theorem negative_floor_not_kept:
  "pg_lossStreakThreshold negative_floor_policy = 1 \<and>
   pg_minRisk negative_floor_policy = - 1 \<and>
   currentRisk (exposure_after (Some negative_floor_policy) (- 8) [- 1]) = - 1 \<and>
   currentRisk (exposure_after (Some negative_floor_policy) (- 8) [- 1, - 1]) = - (1 / 2)"
  by (simp add: exposure_after_def progressive_update_def negative_floor_policy_def
        safe_threshold_def trunc_real_def)

subsection \<open>Determinism of a seeded run\<close>

lemma sample_trade_seeded:
  "sample_trade env1 buckets cumProbs (Mulberry32 a) =
   sample_trade env2 buckets cumProbs (Mulberry32 a)"
  by (simp add: sample_trade_def case_prod_beta Let_def split: option.splits)

lemma sample_trade_keeps_seeded:
  "sample_trade env buckets cumProbs (Mulberry32 a) = Inr (sample, g) \<Longrightarrow> \<exists>a'. g = Mulberry32 a'"
  by (auto simp add: sample_trade_def case_prod_beta Let_def split: option.splits if_splits)

lemma trade_step_seeded:
  assumes "st_rng st = Mulberry32 a"
  shows "trade_step env1 buckets progressive cumProbs t st =
         trade_step env2 buckets progressive cumProbs t st"
  using assms sample_trade_seeded [of env1 buckets cumProbs a env2]
  by (simp add: trade_step_def)

lemma trade_step_keeps_seeded:
  assumes "st_rng st = Mulberry32 a"
    and "trade_step env buckets progressive cumProbs t st = Inr st'"
  shows "\<exists>a'. st_rng st' = Mulberry32 a'"
proof -
  from assms(2) obtain sample g where
    s: "sample_trade env buckets cumProbs (st_rng st) = Inr (sample, g)" and g: "st_rng st' = g"
    by (auto simp add: trade_step_def Let_def split: sum.splits)
  from s assms(1) sample_trade_keeps_seeded show ?thesis unfolding g by metis
qed

lemma trade_loop_seeded:
  "\<exists>a. st_rng st = Mulberry32 a \<Longrightarrow>
   trade_loop env1 buckets progressive cumProbs safeTrades t st =
   trade_loop env2 buckets progressive cumProbs safeTrades t st \<and>
   (\<forall>st'. trade_loop env1 buckets progressive cumProbs safeTrades t st = Inr st' \<longrightarrow>
          (\<exists>a'. st_rng st' = Mulberry32 a'))"
proof (induction env1 buckets progressive cumProbs safeTrades t st rule: trade_loop.induct)
  case (1 env1 buckets progressive cumProbs safeTrades t st)
  from "1.prems" obtain a where a: "st_rng st = Mulberry32 a" by blast
  show ?case
  proof (cases "t < safeTrades")
    case False
    then show ?thesis using a by (simp add: trade_loop.simps)
  next
    case True
    have same: "trade_step env2 buckets progressive cumProbs t st =
                trade_step env1 buckets progressive cumProbs t st"
      using trade_step_seeded [OF a] by simp
    show ?thesis
    proof (cases "trade_step env1 buckets progressive cumProbs t st")
      case (Inl e)
      then show ?thesis using True same
        by (simp add: trade_loop.simps [of _ _ _ _ _ t st])
    next
      case (Inr st1)
      from trade_step_keeps_seeded [OF a Inr] have "\<exists>a'. st_rng st1 = Mulberry32 a'" .
      from "1.IH" [OF True Inr this] show ?thesis using True same Inr
        by (simp add: trade_loop.simps [of _ _ _ _ _ t st])
    qed
  qed
qed

lemma path_step_seeded:
  assumes "sim_rng sim = Mulberry32 a"
  shows "path_step eng env1 cfg cumProbs safeTrades path sim =
         path_step eng env2 cfg cumProbs safeTrades path sim \<and>
         (\<forall>sim'. path_step eng env1 cfg cumProbs safeTrades path sim = Inr sim' \<longrightarrow>
            (\<exists>a'. sim_rng sim' = Mulberry32 a'))"
proof (cases "new_Float64Array eng safeTrades")
  case (Inl e)
  then show ?thesis by (simp add: path_step_def)
next
  case (Inr n)
  let ?st0 = "\<lparr>st_equityPath = replicate n 0, st_rPath = replicate n 0,
                   st_equity = cfg_startEquity cfg,
                   st_exposure = \<lparr>currentRisk = cfg_riskFraction cfg, lossStreak = 0,
                                  winStreak = 0\<rparr>,
                   st_peak = cfg_startEquity cfg, st_minDd = Some 0, st_rng = sim_rng sim\<rparr>"
  have "\<exists>a. st_rng ?st0 = Mulberry32 a" using assms by simp
  from trade_loop_seeded [OF this, of env1 "cfg_buckets cfg" "cfg_progressive cfg" cumProbs n 0 env2]
  show ?thesis using Inr
    by (auto simp add: path_step_def split: sum.splits)
qed

lemma paths_loop_seeded:
  "\<exists>a. sim_rng sim = Mulberry32 a \<Longrightarrow>
   paths_loop eng env1 cfg cumProbs safeTrades safePaths path sim =
   paths_loop eng env2 cfg cumProbs safeTrades safePaths path sim"
proof (induction eng env1 cfg cumProbs safeTrades safePaths path sim rule: paths_loop.induct)
  case (1 eng env1 cfg cumProbs safeTrades safePaths path sim)
  from "1.prems" obtain a where a: "sim_rng sim = Mulberry32 a" by blast
  note step = path_step_seeded [OF a, where ?env1.0 = env1 and ?env2.0 = env2 and eng = eng and cfg = cfg
      and cumProbs = cumProbs and safeTrades = safeTrades and path = path]
  show ?case
  proof (cases "path < safePaths")
    case False
    then show ?thesis by (simp add: paths_loop.simps)
  next
    case True
    show ?thesis
    proof (cases "path_step eng env1 cfg cumProbs safeTrades path sim")
      case (Inl e)
      then show ?thesis using True step
        by (simp add: paths_loop.simps [of _ _ _ _ _ _ path sim])
    next
      case (Inr sim1)
      with step have "\<exists>a'. sim_rng sim1 = Mulberry32 a'" by blast
      note ih = "1.IH" [OF True Inr this]
      have s2: "path_step eng env2 cfg cumProbs safeTrades path sim = Inr sim1"
        using step Inr by simp
      show ?thesis
        unfolding paths_loop.simps [of _ env1 _ _ _ _ path sim]
          paths_loop.simps [of _ env2 _ _ _ _ path sim]
        using True ih by (simp add: Inr s2)
    qed
  qed
qed

text \<open>
  Claim C1. With a finite seed the run does not depend on the values \<open>Math.random\<close>
  would return: the whole result (or the exception raised) is a function of the
  configuration, so two runs with the same configuration return the same equity series,
  outcome series and statistics.
\<close>

theorem runSimulation_deterministic:
  assumes "cfg_seed cfg = Some (Finite s)"
  shows "runSimulation eng env1 cfg = runSimulation eng env2 cfg"
proof -
  have g: "createRng (cfg_seed cfg) = Mulberry32 (nat (trunc_real s mod 2 ^ 32))"
    using assms by (simp add: createRng_def)
  show ?thesis
    unfolding runSimulation_def Let_def g
    by (auto split: sum.splits simp add: paths_loop_seeded [where ?env1.0 = env1 and ?env2.0 = env2])
qed

theorem runSimulation_deterministic_witness:
  "cfg_seed demo_config = Some (Finite 25) \<and>
   runSimulation demo_engine random_low demo_config =
     runSimulation demo_engine random_high demo_config"
  using runSimulation_deterministic [of demo_config 25 demo_engine random_low random_high]
  by (simp add: demo_config_def)

subsection \<open>The equity recurrence\<close>

lemma exposure_after_snoc:
  "exposure_after progressive riskFraction (outcomes @ [sample]) =
     progressive_update progressive sample (exposure_after progressive riskFraction outcomes)"
  by (simp add: exposure_after_def)

lemma take_Suc_update:
  "t < length xs \<Longrightarrow> take (Suc t) (xs[t := y]) = take t xs @ [y]"
  by (simp add: take_Suc_conv_app_nth)

lemma trade_step_fields:
  assumes "trade_step env buckets progressive cumProbs t st = Inr st'"
  shows "\<exists>sample g. sample_trade env buckets cumProbs (st_rng st) = Inr (sample, g) \<and>
           st_rPath st' = (st_rPath st)[t := sample] \<and>
           st_equity st' = st_equity st * (1 + currentRisk (st_exposure st) * sample) \<and>
           st_equityPath st' = (st_equityPath st)[t := st_equity st'] \<and>
           st_exposure st' = progressive_update progressive sample (st_exposure st) \<and>
           st_rng st' = g"
  using assms by (auto simp add: trade_step_def Let_def split: sum.splits)

lemma trade_step_inv:
  assumes step: "trade_step env buckets progressive cumProbs t st = Inr st'"
    and t: "t < n"
    and inv: "trade_inv startEquity progressive riskFraction n t st"
  shows "trade_inv startEquity progressive riskFraction n (Suc t) st'"
proof -
  from trade_step_fields [OF step] obtain sample where
    r: "st_rPath st' = (st_rPath st)[t := sample]" and
    e: "st_equity st' = st_equity st * (1 + currentRisk (st_exposure st) * sample)" and
    ep: "st_equityPath st' = (st_equityPath st)[t := st_equity st']" and
    x: "st_exposure st' = progressive_update progressive sample (st_exposure st)"
    by blast
  from inv have
    len: "length (st_equityPath st) = n" "length (st_rPath st) = n" and
    eq: "st_equity st = (if t = 0 then startEquity else st_equityPath st ! (t - 1))" and
    ex: "st_exposure st = exposure_after progressive riskFraction (take t (st_rPath st))" and
    rec: "follows_recurrence startEquity progressive riskFraction (st_equityPath st)
            (st_rPath st) t"
    by (simp_all add: trade_inv_def)
  have tk: "take (Suc t) (st_rPath st') = take t (st_rPath st) @ [sample]"
    unfolding r using t len(2) by (simp add: take_Suc_update)
  have x': "st_exposure st' =
      exposure_after progressive riskFraction (take (Suc t) (st_rPath st'))"
    unfolding tk exposure_after_snoc x ex ..
  have at_t: "st_equityPath st' ! t = st_equity st'"
    unfolding ep using t len(1) by simp
  have before: "st_equityPath st' ! i = st_equityPath st ! i"
    "st_rPath st' ! i = st_rPath st ! i"
    "take i (st_rPath st') = take i (st_rPath st)" if "i < t" for i
    using that unfolding ep r by simp_all
  have tk_t: "take t (st_rPath st') = take t (st_rPath st)" unfolding r by simp
  have r_t: "st_rPath st' ! t = sample" unfolding r using t len(2) by simp
  have prev: "(if t = 0 then startEquity else st_equityPath st' ! (t - 1)) = st_equity st"
    unfolding eq using before(1) [of "t - 1"] by (cases t) simp_all
  have "follows_recurrence startEquity progressive riskFraction (st_equityPath st')
          (st_rPath st') (Suc t)"
    unfolding follows_recurrence_def
  proof (intro allI impI)
    fix i assume "i < Suc t"
    then consider "i < t" | "i = t" by linarith
    then show "st_equityPath st' ! i =
        (if i = 0 then startEquity else st_equityPath st' ! (i - 1)) *
        (1 + currentRisk (exposure_after progressive riskFraction (take i (st_rPath st'))) *
             st_rPath st' ! i)"
    proof cases
      case 1
      then have "i - 1 < t" by simp
      from rec 1 have "st_equityPath st ! i =
        (if i = 0 then startEquity else st_equityPath st ! (i - 1)) *
        (1 + currentRisk (exposure_after progressive riskFraction (take i (st_rPath st))) *
             st_rPath st ! i)"
        by (simp add: follows_recurrence_def)
      then show ?thesis
        using before [OF 1] before(1) [OF \<open>i - 1 < t\<close>] by simp
    next
      case 2
      show ?thesis unfolding 2 at_t prev tk_t r_t e ex ..
    qed
  qed
  then show ?thesis
    unfolding trade_inv_def using len x' at_t by (simp add: ep r)
qed

lemma trade_loop_inv:
  "trade_loop env buckets progressive cumProbs n t st = Inr st' \<Longrightarrow> t \<le> n \<Longrightarrow>
   trade_inv startEquity progressive riskFraction n t st \<Longrightarrow>
   trade_inv startEquity progressive riskFraction n n st'"
proof (induction env buckets progressive cumProbs n t st rule: trade_loop.induct)
  case (1 env buckets progressive cumProbs n t st)
  show ?case
  proof (cases "t < n")
    case False
    with "1.prems" show ?thesis by (simp add: trade_loop.simps)
  next
    case True
    with "1.prems"(1) obtain st1 where
      s: "trade_step env buckets progressive cumProbs t st = Inr st1" and
      l: "trade_loop env buckets progressive cumProbs n (t + 1) st1 = Inr st'"
      by (auto simp add: trade_loop.simps [of _ _ _ _ _ t st] split: sum.splits)
    have "trade_inv startEquity progressive riskFraction n (Suc t) st1"
      using s True "1.prems"(3) by (rule trade_step_inv)
    then show ?thesis using "1.IH" [OF True s l] True by simp
  qed
qed

lemma trade_inv_initial:
  "trade_inv startEquity progressive riskFraction n 0
     \<lparr>st_equityPath = replicate n 0, st_rPath = replicate n 0, st_equity = startEquity,
      st_exposure = \<lparr>currentRisk = riskFraction, lossStreak = 0, winStreak = 0\<rparr>,
      st_peak = startEquity, st_minDd = Some 0, st_rng = g\<rparr>"
  by (simp add: trade_inv_def follows_recurrence_def exposure_after_def)

lemma path_step_inv:
  assumes step: "path_step eng env cfg cumProbs safeTrades path sim = Inr sim'"
    and alloc: "new_Float64Array eng safeTrades = Inr n"
    and path: "path < safePaths"
    and inv: "paths_inv cfg n safePaths path sim"
  shows "paths_inv cfg n safePaths (Suc path) sim'"
proof -
  let ?st0 = "\<lparr>st_equityPath = replicate n 0, st_rPath = replicate n 0,
                   st_equity = cfg_startEquity cfg,
                   st_exposure = \<lparr>currentRisk = cfg_riskFraction cfg, lossStreak = 0,
                                  winStreak = 0\<rparr>,
                   st_peak = cfg_startEquity cfg, st_minDd = Some 0, st_rng = sim_rng sim\<rparr>"
  from step alloc obtain st where
    loop: "trade_loop env (cfg_buckets cfg) (cfg_progressive cfg) cumProbs n 0 ?st0 = Inr st" and
    ep: "sim_equityPaths sim' = (sim_equityPaths sim)[path := st_equityPath st]" and
    rp: "sim_rPaths sim' = (sim_rPaths sim)[path := st_rPath st]" and
    lens: "length (sim_finalEquity sim') = length (sim_finalEquity sim)"
      "length (sim_maxDrawdowns sim') = length (sim_maxDrawdowns sim)"
      "length (sim_maxConsecutiveLossesAll sim') = length (sim_maxConsecutiveLossesAll sim)"
    by (auto simp add: path_step_def split: sum.splits)
  have "trade_inv (cfg_startEquity cfg) (cfg_progressive cfg) (cfg_riskFraction cfg) n n st"
    using loop _ trade_inv_initial by (rule trade_loop_inv) simp
  then have st: "length (st_equityPath st) = n" "length (st_rPath st) = n"
    "follows_recurrence (cfg_startEquity cfg) (cfg_progressive cfg) (cfg_riskFraction cfg)
       (st_equityPath st) (st_rPath st) n"
    by (simp_all add: trade_inv_def)
  from inv have len: "length (sim_equityPaths sim) = safePaths" "length (sim_rPaths sim) = safePaths"
    and old: "\<forall>p<path. length (sim_equityPaths sim ! p) = n \<and> length (sim_rPaths sim ! p) = n \<and>
        follows_recurrence (cfg_startEquity cfg) (cfg_progressive cfg) (cfg_riskFraction cfg)
          (sim_equityPaths sim ! p) (sim_rPaths sim ! p) n"
    by (simp_all add: paths_inv_def)
  have "length (sim_equityPaths sim' ! p) = n \<and> length (sim_rPaths sim' ! p) = n \<and>
        follows_recurrence (cfg_startEquity cfg) (cfg_progressive cfg) (cfg_riskFraction cfg)
          (sim_equityPaths sim' ! p) (sim_rPaths sim' ! p) n" if "p < Suc path" for p
  proof (cases "p = path")
    case True
    then show ?thesis unfolding ep rp using st path len by simp
  next
    case False
    with that have "p < path" by simp
    with old show ?thesis unfolding ep rp using False by simp
  qed
  then show ?thesis
    using inv lens unfolding paths_inv_def by (simp add: ep rp)
qed

lemma paths_loop_inv:
  "paths_loop eng env cfg cumProbs safeTrades safePaths path sim = Inr sim' \<Longrightarrow>
   new_Float64Array eng safeTrades = Inr n \<Longrightarrow> path \<le> safePaths \<Longrightarrow>
   paths_inv cfg n safePaths path sim \<Longrightarrow> paths_inv cfg n safePaths safePaths sim'"
proof (induction eng env cfg cumProbs safeTrades safePaths path sim rule: paths_loop.induct)
  case (1 eng env cfg cumProbs safeTrades safePaths path sim)
  show ?case
  proof (cases "path < safePaths")
    case False
    with "1.prems" show ?thesis by (simp add: paths_loop.simps)
  next
    case True
    with "1.prems"(1) obtain sim1 where
      s: "path_step eng env cfg cumProbs safeTrades path sim = Inr sim1" and
      l: "paths_loop eng env cfg cumProbs safeTrades safePaths (path + 1) sim1 = Inr sim'"
      by (auto simp add: paths_loop.simps [of _ _ _ _ _ _ path sim] split: sum.splits)
    have "paths_inv cfg n safePaths (Suc path) sim1"
      using s "1.prems"(2) True "1.prems"(4) by (rule path_step_inv)
    then show ?thesis using "1.IH" [OF True s l "1.prems"(2)] True by simp
  qed
qed

lemma lower_drawdown_finite:
  "minDd \<noteq> None \<Longrightarrow> (peak = 0 \<longrightarrow> v = 0) \<Longrightarrow> lower_drawdown v peak minDd \<noteq> None"
  by (auto simp add: lower_drawdown_def Let_def)

lemma trade_step_dd:
  assumes "trade_step env buckets progressive cumProbs t st = Inr st'" and "dd_inv st"
  shows "dd_inv st'"
proof -
  from assms(1) obtain sample g where
    s: "sample_trade env buckets cumProbs (st_rng st) = Inr (sample, g)"
    by (auto simp add: trade_step_def Let_def split: sum.splits)
  define equity where "equity = st_equity st * (1 + currentRisk (st_exposure st) * sample)"
  define peak where "peak = (if equity > st_peak st then equity else st_peak st)"
  from assms(1) s have
    e: "st_equity st' = equity" and p: "st_peak st' = peak" and
    d: "st_minDd st' = lower_drawdown equity peak (st_minDd st)"
    by (auto simp add: trade_step_def Let_def equity_def peak_def)
  have zero: "peak = 0 \<longrightarrow> equity = 0"
  proof
    assume pk: "peak = 0"
    show "equity = 0"
    proof (cases "equity > st_peak st")
      case True
      with pk show ?thesis by (simp add: peak_def)
    next
      case False
      with pk have "st_peak st = 0" by (simp add: peak_def)
      with assms(2) have "st_equity st = 0" by (simp add: dd_inv_def)
      then show ?thesis by (simp add: equity_def)
    qed
  qed
  from assms(2) have "st_minDd st \<noteq> None" by (simp add: dd_inv_def)
  from lower_drawdown_finite [OF this zero] zero show ?thesis
    unfolding dd_inv_def e p d by simp
qed

lemma trade_loop_dd:
  "trade_loop env buckets progressive cumProbs n t st = Inr st' \<Longrightarrow> dd_inv st \<Longrightarrow> dd_inv st'"
proof (induction env buckets progressive cumProbs n t st rule: trade_loop.induct)
  case (1 env buckets progressive cumProbs n t st)
  show ?case
  proof (cases "t < n")
    case False
    with "1.prems" show ?thesis by (simp add: trade_loop.simps)
  next
    case True
    with "1.prems"(1) obtain st1 where
      s: "trade_step env buckets progressive cumProbs t st = Inr st1" and
      l: "trade_loop env buckets progressive cumProbs n (t + 1) st1 = Inr st'"
      by (auto simp add: trade_loop.simps [of _ _ _ _ _ t st] split: sum.splits)
    have "dd_inv st1" using s "1.prems"(2) by (rule trade_step_dd)
    then show ?thesis using "1.IH" [OF True s l] by simp
  qed
qed

lemma path_step_dd:
  assumes "path_step eng env cfg cumProbs safeTrades path sim = Inr sim'"
    and "None \<notin> set (sim_maxDrawdowns sim)"
  shows "None \<notin> set (sim_maxDrawdowns sim')"
proof -
  from assms(1) obtain n st where
    loop: "trade_loop env (cfg_buckets cfg) (cfg_progressive cfg) cumProbs n 0
             \<lparr>st_equityPath = replicate n 0, st_rPath = replicate n 0,
              st_equity = cfg_startEquity cfg,
              st_exposure = \<lparr>currentRisk = cfg_riskFraction cfg, lossStreak = 0,
                             winStreak = 0\<rparr>,
              st_peak = cfg_startEquity cfg, st_minDd = Some 0, st_rng = sim_rng sim\<rparr> = Inr st"
    and md: "sim_maxDrawdowns sim' = (sim_maxDrawdowns sim)[path := st_minDd st]"
    by (auto simp add: path_step_def split: sum.splits)
  have "dd_inv st" using loop by (rule trade_loop_dd) (simp add: dd_inv_def)
  then have "st_minDd st \<noteq> None" by (simp add: dd_inv_def)
  moreover have "set (sim_maxDrawdowns sim') \<subseteq> insert (st_minDd st) (set (sim_maxDrawdowns sim))"
    unfolding md by (rule set_update_subset_insert)
  ultimately show ?thesis using assms(2) by auto
qed

lemma paths_loop_dd:
  "paths_loop eng env cfg cumProbs safeTrades safePaths path sim = Inr sim' \<Longrightarrow>
   None \<notin> set (sim_maxDrawdowns sim) \<Longrightarrow> None \<notin> set (sim_maxDrawdowns sim')"
proof (induction eng env cfg cumProbs safeTrades safePaths path sim rule: paths_loop.induct)
  case (1 eng env cfg cumProbs safeTrades safePaths path sim)
  show ?case
  proof (cases "path < safePaths")
    case False
    with "1.prems" show ?thesis by (simp add: paths_loop.simps)
  next
    case True
    with "1.prems"(1) obtain sim1 where
      s: "path_step eng env cfg cumProbs safeTrades path sim = Inr sim1" and
      l: "paths_loop eng env cfg cumProbs safeTrades safePaths (path + 1) sim1 = Inr sim'"
      by (auto simp add: paths_loop.simps [of _ _ _ _ _ _ path sim] split: sum.splits)
    have "None \<notin> set (sim_maxDrawdowns sim1)" using s "1.prems"(2) by (rule path_step_dd)
    then show ?thesis using "1.IH" [OF True s l] by simp
  qed
qed

lemma sample_trade_total:
  assumes "buckets \<noteq> []" and "length cumProbs = length buckets"
  shows "\<exists>sample g'. sample_trade env buckets cumProbs g = Inr (sample, g')"
proof -
  let ?u = "fst (rng_next env g)"
  let ?idx = "findIndex (\<lambda>p. ?u \<le> p) cumProbs"
  let ?i = "if ?idx = - 1 then int (length buckets) - 1 else ?idx"
  have len: "0 < length buckets" using assms(1) by simp
  have range: "0 \<le> ?i \<and> ?i < int (length buckets)"
  proof (cases "?idx = - 1")
    case True
    then show ?thesis using len by simp
  next
    case False
    from findIndex_found [OF False] show ?thesis using False assms(2) by auto
  qed
  then have get: "array_get buckets ?i = Some (buckets ! nat ?i)"
    unfolding array_get_def by simp
  show ?thesis
    unfolding sample_trade_def Let_def case_prod_beta get by simp
qed

lemma trade_step_total:
  assumes "buckets \<noteq> []" and "length cumProbs = length buckets"
  shows "\<exists>st'. trade_step env buckets progressive cumProbs t st = Inr st'"
  using sample_trade_total [OF assms, of env "st_rng st"]
  by (auto simp add: trade_step_def Let_def)

lemma trade_loop_total:
  "buckets \<noteq> [] \<Longrightarrow> length cumProbs = length buckets \<Longrightarrow>
   \<exists>st'. trade_loop env buckets progressive cumProbs n t st = Inr st'"
proof (induction env buckets progressive cumProbs n t st rule: trade_loop.induct)
  case (1 env buckets progressive cumProbs n t st)
  show ?case
  proof (cases "t < n")
    case False
    then show ?thesis by (simp add: trade_loop.simps)
  next
    case True
    from trade_step_total [OF "1.prems"] obtain st1 where
      s: "trade_step env buckets progressive cumProbs t st = Inr st1" by blast
    from "1.IH" [OF True s "1.prems"] show ?thesis using True s
      by (simp add: trade_loop.simps [of _ _ _ _ _ t st])
  qed
qed

lemma path_step_total:
  assumes "cfg_buckets cfg \<noteq> []" and "length cumProbs = length (cfg_buckets cfg)"
    and "new_Float64Array eng safeTrades = Inr n"
  shows "\<exists>sim'. path_step eng env cfg cumProbs safeTrades path sim = Inr sim'"
proof -
  let ?st0 = "\<lparr>st_equityPath = replicate n 0, st_rPath = replicate n 0,
                   st_equity = cfg_startEquity cfg,
                   st_exposure = \<lparr>currentRisk = cfg_riskFraction cfg, lossStreak = 0,
                                  winStreak = 0\<rparr>,
                   st_peak = cfg_startEquity cfg, st_minDd = Some 0, st_rng = sim_rng sim\<rparr>"
  from trade_loop_total [OF assms(1,2), of env "cfg_progressive cfg" n 0 ?st0]
  show ?thesis using assms(3) by (auto simp add: path_step_def)
qed

lemma paths_loop_total:
  "cfg_buckets cfg \<noteq> [] \<Longrightarrow> length cumProbs = length (cfg_buckets cfg) \<Longrightarrow>
   new_Float64Array eng safeTrades = Inr n \<Longrightarrow>
   \<exists>sim'. paths_loop eng env cfg cumProbs safeTrades safePaths path sim = Inr sim'"
proof (induction eng env cfg cumProbs safeTrades safePaths path sim rule: paths_loop.induct)
  case (1 eng env cfg cumProbs safeTrades safePaths path sim)
  show ?case
  proof (cases "path < safePaths")
    case False
    then show ?thesis by (simp add: paths_loop.simps)
  next
    case True
    from path_step_total [OF "1.prems"] obtain sim1 where
      s: "path_step eng env cfg cumProbs safeTrades path sim = Inr sim1" by blast
    from "1.IH" [OF True s "1.prems"] show ?thesis using True s
      by (simp add: paths_loop.simps [of _ _ _ _ _ _ path sim])
  qed
qed

lemma select_step_indices:
  assumes "i < n" "sel_medianIdx sel < n" "sel_bestIdx sel < n" "sel_worstIdx sel < n"
  shows "sel_medianIdx (select_step finalEquity medianValue sel i) < n \<and>
         sel_bestIdx (select_step finalEquity medianValue sel i) < n \<and>
         sel_worstIdx (select_step finalEquity medianValue sel i) < n"
  using assms by (simp add: select_step_def Let_def split: option.splits)

lemma select_loop_indices:
  "\<forall>i\<in>set is. i < n \<Longrightarrow> sel_medianIdx sel < n \<Longrightarrow> sel_bestIdx sel < n \<Longrightarrow>
   sel_worstIdx sel < n \<Longrightarrow>
   sel_medianIdx (foldl (select_step finalEquity medianValue) sel is) < n \<and>
   sel_bestIdx (foldl (select_step finalEquity medianValue) sel is) < n \<and>
   sel_worstIdx (foldl (select_step finalEquity medianValue) sel is) < n"
proof (induction "is" arbitrary: sel)
  case Nil
  then show ?case by simp
next
  case (Cons i "is")
  have i: "i < n" using Cons.prems(1) by simp
  from select_step_indices [OF i Cons.prems(2,3,4), of finalEquity medianValue]
  show ?case using Cons.IH [of "select_step finalEquity medianValue sel i"] Cons.prems(1)
    by simp
qed

lemma aggregate_paths:
  "aggregate eng cfg sim = Inr res \<Longrightarrow>
   res_equityPaths res = sim_equityPaths sim \<and> res_rPaths res = sim_rPaths sim \<and>
   res_maxDrawdowns res = sim_maxDrawdowns sim"
  by (auto simp add: aggregate_def Let_def split: if_splits sum.splits)

lemma those_length: "those xs = Some ys \<Longrightarrow> length ys = length xs"
  by (induction xs arbitrary: ys) (auto split: option.splits)

lemma histogram_total:
  "length values \<le> eng_max_arguments eng \<Longrightarrow> \<exists>h. histogram eng values binCount = Inr h"
  by (simp add: histogram_def Let_def)

lemma histogram_of_drawdowns_total:
  assumes "length maxDrawdowns \<le> eng_max_arguments eng"
  shows "\<exists>h. histogram_of_drawdowns eng maxDrawdowns binCount = Inr h"
proof (cases "those maxDrawdowns")
  case None
  then show ?thesis using assms by (simp add: histogram_of_drawdowns_def)
next
  case (Some ds)
  from those_length [OF Some] assms have "length ds \<le> eng_max_arguments eng" by simp
  from histogram_total [OF this, of binCount] show ?thesis
    using assms Some by (simp add: histogram_of_drawdowns_def)
qed

lemma aggregate_total:
  assumes "0 < n" "length (sim_equityPaths sim) = n" "length (sim_rPaths sim) = n"
    "length (sim_finalEquity sim) = n" "length (sim_maxConsecutiveLossesAll sim) = n"
    "length (sim_maxDrawdowns sim) = n" "n \<le> eng_max_arguments eng"
  shows "\<exists>res. aggregate eng cfg sim = Inr res"
proof -
  let ?sel0 = "\<lparr>sel_medianIdx = 0, sel_bestIdx = 0, sel_worstIdx = 0, sel_bestValue = None,
                   sel_worstValue = None, sel_closest = None\<rparr>"
  have "\<forall>i\<in>set [0 ..< length (sim_finalEquity sim)]. i < n" using assms(4) by simp
  note idx = select_loop_indices [OF this, of ?sel0 "sim_finalEquity sim"
      "percentile (sim_finalEquity sim) 50"]
  obtain hd where hd: "histogram_of_drawdowns eng (sim_maxDrawdowns sim) 60 = Inr hd"
    using histogram_of_drawdowns_total [of "sim_maxDrawdowns sim" eng 60] assms(6,7) by auto
  obtain hf where hf: "histogram eng (sim_finalEquity sim) 60 = Inr hf"
    using histogram_total [of "sim_finalEquity sim" eng 60] assms(4,7) by auto
  from idx assms show ?thesis by (simp add: aggregate_def Let_def hd hf)
qed

lemma table_length:
  "length (cumProbs_of (normProbs_of (probs_of buckets))) = length buckets"
  by (simp add: cumProbs_of_length normProbs_of_def probs_of_def)

lemma paths_inv_initial:
  "paths_inv cfg n safePaths 0
     \<lparr>sim_equityPaths = replicate safePaths [], sim_rPaths = replicate safePaths [],
      sim_finalEquity = replicate safePaths 0, sim_maxDrawdowns = replicate safePaths (Some 0),
      sim_maxConsecutiveLossesAll = replicate safePaths 0,
      sim_equityMin = None, sim_equityMax = None, sim_rng = g\<rparr>"
  by (simp add: paths_inv_def)

lemma paths_loop_alloc_fails:
  "new_Float64Array eng safeTrades = Inl e \<Longrightarrow> path < safePaths \<Longrightarrow>
   paths_loop eng env cfg cumProbs safeTrades safePaths path sim = Inl e"
  by (simp add: paths_loop.simps [of _ _ _ _ _ _ path sim] path_step_def)

text \<open>What a successful run went through.\<close>

lemma runSimulation_Inr:
  assumes "runSimulation eng env cfg = Inr res"
  shows "\<exists>np sim. new_Array (safe_count (cfg_nPaths cfg)) = Inr np \<and>
           res_equityPaths res = sim_equityPaths sim \<and> res_rPaths res = sim_rPaths sim \<and>
           length (sim_equityPaths sim) = np \<and> length (sim_rPaths sim) = np \<and>
           (0 < np \<longrightarrow> (\<exists>n. new_Float64Array eng (safe_count (cfg_nTrades cfg)) = Inr n \<and>
                           paths_inv cfg n np np sim))"
proof -
  let ?cum = "cumProbs_of (normProbs_of (probs_of (cfg_buckets cfg)))"
  obtain np where np: "new_Array (safe_count (cfg_nPaths cfg)) = Inr np"
  proof (cases "new_Array (safe_count (cfg_nPaths cfg))")
    case (Inl e)
    with assms show ?thesis by (simp add: runSimulation_def Let_def)
  next
    case (Inr np)
    with that show ?thesis .
  qed
  let ?sim0 = "\<lparr>sim_equityPaths = replicate np [], sim_rPaths = replicate np [],
      sim_finalEquity = replicate np 0, sim_maxDrawdowns = replicate np (Some 0),
      sim_maxConsecutiveLossesAll = replicate np 0,
      sim_equityMin = None, sim_equityMax = None, sim_rng = createRng (cfg_seed cfg)\<rparr>"
  have run: "runSimulation eng env cfg =
      (case paths_loop eng env cfg ?cum (safe_count (cfg_nTrades cfg)) np 0 ?sim0 of
         Inl e \<Rightarrow> Inl e | Inr sim \<Rightarrow> aggregate eng cfg sim)"
    unfolding runSimulation_def Let_def np by simp
  obtain sim where
    loop: "paths_loop eng env cfg ?cum (safe_count (cfg_nTrades cfg)) np 0 ?sim0 = Inr sim" and
    agg: "aggregate eng cfg sim = Inr res"
  proof (cases "paths_loop eng env cfg ?cum (safe_count (cfg_nTrades cfg)) np 0 ?sim0")
    case (Inl e)
    with assms run show ?thesis by simp
  next
    case (Inr sim)
    with assms run that show ?thesis by simp
  qed
  note paths = aggregate_paths [OF agg]
  show ?thesis
  proof (cases "new_Float64Array eng (safe_count (cfg_nTrades cfg))")
    case (Inl e)
    have "np = 0"
    proof (rule ccontr)
      assume "np \<noteq> 0"
      then have "0 < np" by simp
      from paths_loop_alloc_fails [OF Inl this] loop show False by simp
    qed
    then have "sim = ?sim0" using loop by (simp add: paths_loop.simps)
    then have "length (sim_equityPaths sim) = np" "length (sim_rPaths sim) = np" by simp_all
    then show ?thesis using np paths \<open>np = 0\<close> by blast
  next
    case (Inr n)
    have "paths_inv cfg n np np sim"
      using loop Inr _ paths_inv_initial by (rule paths_loop_inv) simp
    then show ?thesis using np paths Inr by (auto simp add: paths_inv_def)
  qed
qed

text \<open>Every per-path maximum drawdown of a run is a finite number.\<close>

lemma run_drawdowns_finite:
  assumes "runSimulation eng env cfg = Inr res"
  shows "None \<notin> set (res_maxDrawdowns res)"
proof -
  let ?cum = "cumProbs_of (normProbs_of (probs_of (cfg_buckets cfg)))"
  obtain np where np: "new_Array (safe_count (cfg_nPaths cfg)) = Inr np"
  proof (cases "new_Array (safe_count (cfg_nPaths cfg))")
    case (Inl e)
    with assms show ?thesis by (simp add: runSimulation_def Let_def)
  next
    case (Inr np)
    with that show ?thesis .
  qed
  let ?sim0 = "\<lparr>sim_equityPaths = replicate np [], sim_rPaths = replicate np [],
      sim_finalEquity = replicate np 0, sim_maxDrawdowns = replicate np (Some 0),
      sim_maxConsecutiveLossesAll = replicate np 0,
      sim_equityMin = None, sim_equityMax = None, sim_rng = createRng (cfg_seed cfg)\<rparr>"
  have run: "runSimulation eng env cfg =
      (case paths_loop eng env cfg ?cum (safe_count (cfg_nTrades cfg)) np 0 ?sim0 of
         Inl e \<Rightarrow> Inl e | Inr sim \<Rightarrow> aggregate eng cfg sim)"
    unfolding runSimulation_def Let_def np by simp
  obtain sim where
    loop: "paths_loop eng env cfg ?cum (safe_count (cfg_nTrades cfg)) np 0 ?sim0 = Inr sim" and
    agg: "aggregate eng cfg sim = Inr res"
  proof (cases "paths_loop eng env cfg ?cum (safe_count (cfg_nTrades cfg)) np 0 ?sim0")
    case (Inl e)
    with assms run show ?thesis by simp
  next
    case (Inr sim)
    with assms run that show ?thesis by simp
  qed
  have "None \<notin> set (sim_maxDrawdowns sim)" using loop by (rule paths_loop_dd) simp
  then show ?thesis using aggregate_paths [OF agg] by simp
qed

text \<open>
  Claim C2. In the result of a run, every recorded equity of every path is the equity
  before it (the start equity at the first trade) times \<open>1 + risk * outcome\<close>, where the
  outcome is the one recorded at that index and the risk is the base risk fraction
  adjusted by the progressive policy over the outcomes recorded before that index (the
  base risk fraction itself when no policy is configured).
\<close>

theorem equity_recurrence:
  assumes "runSimulation eng env cfg = Inr res"
    and "p < length (res_equityPaths res)"
    and "t < length (res_equityPaths res ! p)"
  shows "t < length (res_rPaths res ! p) \<and>
         res_equityPaths res ! p ! t =
           (if t = 0 then cfg_startEquity cfg else res_equityPaths res ! p ! (t - 1)) *
           (1 + currentRisk (exposure_after (cfg_progressive cfg) (cfg_riskFraction cfg)
                  (take t (res_rPaths res ! p))) * res_rPaths res ! p ! t)"
proof -
  from runSimulation_Inr [OF assms(1)] obtain np sim where
    eq: "res_equityPaths res = sim_equityPaths sim" "res_rPaths res = sim_rPaths sim" and
    len: "length (sim_equityPaths sim) = np" and
    inv: "0 < np \<longrightarrow> (\<exists>n. new_Float64Array eng (safe_count (cfg_nTrades cfg)) = Inr n \<and>
                           paths_inv cfg n np np sim)"
    by blast
  have p: "p < np" using assms(2) eq len by simp
  with inv obtain n where "paths_inv cfg n np np sim" by auto
  with p have
    l: "length (sim_equityPaths sim ! p) = n" "length (sim_rPaths sim ! p) = n" and
    rec: "follows_recurrence (cfg_startEquity cfg) (cfg_progressive cfg) (cfg_riskFraction cfg)
          (sim_equityPaths sim ! p) (sim_rPaths sim ! p) n"
    by (simp_all add: paths_inv_def)
  have t: "t < n" using assms(3) eq l by simp
  with rec show ?thesis unfolding eq using l by (simp add: follows_recurrence_def)
qed

subsection \<open>Degenerate counts\<close>

lemma safe_count_Finite:
  "safe_count (Finite r) = Finite (of_int (max 1 (trunc_real r)))"
  by (simp add: safe_count_def max_def)

lemma safe_count_NegInfinity: "safe_count NegInfinity = Finite 1"
  by (simp add: safe_count_def)

lemma trunc_real_nonpos: "r \<le> 0 \<Longrightarrow> trunc_real r \<le> 0"
  by (auto simp add: trunc_real_def ceiling_le_iff)

lemma safe_count_degenerate:
  assumes "n = NegInfinity \<or> (\<exists>r\<le>0. n = Finite r)"
  shows "safe_count n = Finite 1"
proof (cases "n = NegInfinity")
  case True
  then show ?thesis by (simp add: safe_count_NegInfinity)
next
  case False
  with assms obtain r where r: "n = Finite r" "r \<le> 0" by blast
  from r(2) have "trunc_real r \<le> 0" by (rule trunc_real_nonpos)
  then have "max 1 (trunc_real r) = 1" by simp
  then show ?thesis unfolding r(1) safe_count_Finite by simp
qed

lemma new_Array_whole:
  assumes "1 \<le> k" "k < 2 ^ 32"
  shows "new_Array (Finite (of_int k)) = Inr (nat k)"
proof -
  have "(0 :: real) \<le> of_int k" using assms(1) by simp
  moreover have "real_of_int k \<le> of_int (4294967295 :: int)" using assms(2)
    unfolding of_int_le_iff by simp
  ultimately show ?thesis by (simp add: new_Array_def)
qed

lemma new_Float64Array_whole:
  assumes "1 \<le> k" "k < 2 ^ 53" "k \<le> int (eng_max_length eng)"
  shows "new_Float64Array eng (Finite (of_int k)) = Inr (nat k)"
proof -
  have "trunc_real (of_int k) = k" by (simp add: trunc_real_def)
  then show ?thesis using assms by (simp add: new_Float64Array_def)
qed

lemma runSimulation_total:
  assumes b: "cfg_buckets cfg \<noteq> []"
    and a2: "new_Float64Array eng (safe_count (cfg_nTrades cfg)) = Inr n"
    and np: "safe_count (cfg_nPaths cfg) = Finite (of_int kp)" "1 \<le> kp" "kp < 2 ^ 32"
    and arg: "nat kp \<le> eng_max_arguments eng"
  shows "\<exists>res. runSimulation eng env cfg = Inr res \<and> length (res_equityPaths res) = nat kp \<and>
           length (res_rPaths res) = nat kp \<and>
           (\<forall>p<nat kp. length (res_equityPaths res ! p) = n \<and>
                       length (res_rPaths res ! p) = n)"
proof -
  let ?cum = "cumProbs_of (normProbs_of (probs_of (cfg_buckets cfg)))"
  let ?sim0 = "\<lparr>sim_equityPaths = replicate (nat kp) [], sim_rPaths = replicate (nat kp) [],
      sim_finalEquity = replicate (nat kp) 0, sim_maxDrawdowns = replicate (nat kp) (Some 0),
      sim_maxConsecutiveLossesAll = replicate (nat kp) 0,
      sim_equityMin = None, sim_equityMax = None, sim_rng = createRng (cfg_seed cfg)\<rparr>"
  have a1: "new_Array (safe_count (cfg_nPaths cfg)) = Inr (nat kp)"
    unfolding np(1) using np(2,3) by (rule new_Array_whole)
  from paths_loop_total [OF b table_length a2] obtain sim where
    loop: "paths_loop eng env cfg ?cum (safe_count (cfg_nTrades cfg)) (nat kp) 0 ?sim0 = Inr sim"
    by blast
  have inv: "paths_inv cfg n (nat kp) (nat kp) sim"
    using loop a2 _ paths_inv_initial by (rule paths_loop_inv) simp
  then have lens: "length (sim_equityPaths sim) = nat kp" "length (sim_rPaths sim) = nat kp"
    "length (sim_finalEquity sim) = nat kp" "length (sim_maxConsecutiveLossesAll sim) = nat kp"
    "length (sim_maxDrawdowns sim) = nat kp"
    by (simp_all add: paths_inv_def)
  have "0 < nat kp" using np(2) by simp
  from aggregate_total [OF this lens arg, of cfg] obtain res where
    agg: "aggregate eng cfg sim = Inr res" by blast
  have run: "runSimulation eng env cfg = Inr res"
    unfolding runSimulation_def Let_def a1 using loop agg by simp
  from aggregate_paths [OF agg] inv lens show ?thesis using run
    by (auto simp add: paths_inv_def)
qed

text \<open>
  The counts of a configuration are read once, at the start of the run; the loops and
  the aggregation read the other fields only.
\<close>

lemma path_step_cong_cfg:
  assumes "cfg_buckets c1 = cfg_buckets c2" "cfg_progressive c1 = cfg_progressive c2"
    "cfg_startEquity c1 = cfg_startEquity c2" "cfg_riskFraction c1 = cfg_riskFraction c2"
  shows "path_step eng env c1 cumProbs safeTrades path sim =
         path_step eng env c2 cumProbs safeTrades path sim"
  unfolding path_step_def assms ..

lemma paths_loop_cong_cfg:
  assumes "cfg_buckets c1 = cfg_buckets c2" "cfg_progressive c1 = cfg_progressive c2"
    "cfg_startEquity c1 = cfg_startEquity c2" "cfg_riskFraction c1 = cfg_riskFraction c2"
  shows "paths_loop eng env c1 cumProbs safeTrades safePaths path sim =
         paths_loop eng env c2 cumProbs safeTrades safePaths path sim"
  using assms
proof (induction eng env c1 cumProbs safeTrades safePaths path sim rule: paths_loop.induct)
  case (1 eng env c1 cumProbs safeTrades safePaths path sim)
  note step = path_step_cong_cfg [OF "1.prems", of eng env cumProbs safeTrades path sim]
  show ?case
  proof (cases "path < safePaths")
    case False
    then show ?thesis by (simp add: paths_loop.simps)
  next
    case True
    show ?thesis
    proof (cases "path_step eng env c1 cumProbs safeTrades path sim")
      case (Inl e)
      then show ?thesis using True step
        by (simp add: paths_loop.simps [of _ _ _ _ _ _ path sim])
    next
      case (Inr sim1)
      note ih = "1.IH" [OF True Inr "1.prems"]
      have s2: "path_step eng env c2 cumProbs safeTrades path sim = Inr sim1"
        using step Inr by simp
      show ?thesis
        unfolding paths_loop.simps [of _ _ c1 _ _ _ path sim]
          paths_loop.simps [of _ _ c2 _ _ _ path sim]
        using True ih by (simp add: Inr s2)
    qed
  qed
qed

lemma aggregate_cong_cfg:
  assumes "cfg_startEquity c1 = cfg_startEquity c2"
    "cfg_tradesPerMonth c1 = cfg_tradesPerMonth c2"
    "cfg_startYear c1 = cfg_startYear c2" "cfg_startMonth c1 = cfg_startMonth c2"
  shows "aggregate eng c1 sim = aggregate eng c2 sim"
  unfolding aggregate_def assms ..

lemma runSimulation_cong_cfg:
  assumes "safe_count (cfg_nTrades c1) = safe_count (cfg_nTrades c2)"
    "safe_count (cfg_nPaths c1) = safe_count (cfg_nPaths c2)"
    "cfg_buckets c1 = cfg_buckets c2" "cfg_progressive c1 = cfg_progressive c2"
    "cfg_startEquity c1 = cfg_startEquity c2" "cfg_riskFraction c1 = cfg_riskFraction c2"
    "cfg_tradesPerMonth c1 = cfg_tradesPerMonth c2"
    "cfg_startYear c1 = cfg_startYear c2" "cfg_startMonth c1 = cfg_startMonth c2"
    "cfg_seed c1 = cfg_seed c2"
  shows "runSimulation eng env c1 = runSimulation eng env c2"
proof -
  have loop: "paths_loop eng env c1 cumProbs safeTrades safePaths path sim =
      paths_loop eng env c2 cumProbs safeTrades safePaths path sim"
    for cumProbs safeTrades safePaths path sim
    using assms(3,4,5,6) by (rule paths_loop_cong_cfg)
  have agg: "aggregate eng c1 sim = aggregate eng c2 sim" for sim
    using assms(5,7,8,9) by (rule aggregate_cong_cfg)
  show ?thesis
    unfolding runSimulation_def Let_def loop agg assms(1,2,3,10) ..
qed

text \<open>The recurrence on the first two trades of the second path of the example run.\<close>

theorem equity_recurrence_witness:
  "\<exists>res. runSimulation demo_engine random_low demo_config = Inr res \<and>
      1 < length (res_equityPaths res) \<and> 1 < length (res_equityPaths res ! 1) \<and>
      res_equityPaths res ! 1 ! 0 = 1000 * (1 + 1 / 50 * res_rPaths res ! 1 ! 0) \<and>
      res_equityPaths res ! 1 ! 1 =
        res_equityPaths res ! 1 ! 0 *
        (1 + currentRisk (exposure_after (Some demo_policy) (1 / 50) (take 1 (res_rPaths res ! 1))) *
             res_rPaths res ! 1 ! 1)"
proof -
  have b: "cfg_buckets demo_config \<noteq> []" by (simp add: demo_config_def)
  have "safe_count (cfg_nTrades demo_config) = Finite (of_int 3)"
    by (simp add: demo_config_def safe_count_def trunc_real_def)
  then have a: "new_Float64Array demo_engine (safe_count (cfg_nTrades demo_config)) = Inr 3"
    by (simp add: new_Float64Array_def trunc_real_def demo_engine_def)
  have c: "safe_count (cfg_nPaths demo_config) = Finite (of_int 2)"
    by (simp add: demo_config_def safe_count_def trunc_real_def)
  have d: "nat 2 \<le> eng_max_arguments demo_engine" by (simp add: demo_engine_def)
  from runSimulation_total [OF b a c _ _ d, of random_low] obtain res where
    res: "runSimulation demo_engine random_low demo_config = Inr res"
      "length (res_equityPaths res) = 2"
      "\<forall>p<2. length (res_equityPaths res ! p) = 3"
    by auto
  have p: "1 < length (res_equityPaths res)" using res(2) by simp
  have t0: "0 < length (res_equityPaths res ! 1)" and t1: "1 < length (res_equityPaths res ! 1)"
    using res(3) by simp_all
  from equity_recurrence [OF res(1) p t0] equity_recurrence [OF res(1) p t1] res(1) p t1
  show ?thesis
    by (auto simp add: demo_config_def exposure_after_def)
qed

text \<open>
  Claim C9, amended. A trade count or a path count that is at most 0 or negatively
  infinite is coerced to 1: the run is the run with that count set to 1. When both counts
  are such, the bucket list is not empty and the engine allocates an array of one element
  and takes one argument, the run returns a result with one path of one trade.
\<close>

theorem degenerate_counts_coerced:
  assumes "n = NegInfinity \<or> (\<exists>r\<le>0. n = Finite r)"
  shows "safe_count n = Finite 1 \<and>
     runSimulation eng env (cfg\<lparr>cfg_nTrades := n\<rparr>) =
       runSimulation eng env (cfg\<lparr>cfg_nTrades := Finite 1\<rparr>) \<and>
     runSimulation eng env (cfg\<lparr>cfg_nPaths := n\<rparr>) =
       runSimulation eng env (cfg\<lparr>cfg_nPaths := Finite 1\<rparr>) \<and>
     ((cfg_nTrades cfg = NegInfinity \<or> (\<exists>r\<le>0. cfg_nTrades cfg = Finite r)) \<and>
      (cfg_nPaths cfg = NegInfinity \<or> (\<exists>r\<le>0. cfg_nPaths cfg = Finite r)) \<and>
      cfg_buckets cfg \<noteq> [] \<and> 1 \<le> eng_max_length eng \<and> 1 \<le> eng_max_arguments eng \<longrightarrow>
      (\<exists>res. runSimulation eng env cfg = Inr res \<and>
         length (res_equityPaths res) = 1 \<and> length (res_rPaths res) = 1 \<and>
         length (res_equityPaths res ! 0) = 1 \<and> length (res_rPaths res ! 0) = 1))"
proof (intro conjI impI)
  show one: "safe_count n = Finite 1" using assms by (rule safe_count_degenerate)
  have same: "safe_count n = safe_count (Finite 1)"
    unfolding one by (simp add: safe_count_def trunc_real_def)
  show "runSimulation eng env (cfg\<lparr>cfg_nTrades := n\<rparr>) =
       runSimulation eng env (cfg\<lparr>cfg_nTrades := Finite 1\<rparr>)"
    by (rule runSimulation_cong_cfg) (simp_all add: same)
  show "runSimulation eng env (cfg\<lparr>cfg_nPaths := n\<rparr>) =
       runSimulation eng env (cfg\<lparr>cfg_nPaths := Finite 1\<rparr>)"
    by (rule runSimulation_cong_cfg) (simp_all add: same)
next
  assume a: "(cfg_nTrades cfg = NegInfinity \<or> (\<exists>r\<le>0. cfg_nTrades cfg = Finite r)) \<and>
      (cfg_nPaths cfg = NegInfinity \<or> (\<exists>r\<le>0. cfg_nPaths cfg = Finite r)) \<and>
      cfg_buckets cfg \<noteq> [] \<and> 1 \<le> eng_max_length eng \<and> 1 \<le> eng_max_arguments eng"
  then have t: "safe_count (cfg_nTrades cfg) = Finite (of_int 1)"
    and p: "safe_count (cfg_nPaths cfg) = Finite (of_int 1)"
    by (simp_all add: safe_count_degenerate)
  have a2: "new_Float64Array eng (safe_count (cfg_nTrades cfg)) = Inr (nat 1)"
    unfolding t using a by (intro new_Float64Array_whole) simp_all
  have b: "cfg_buckets cfg \<noteq> []" using a by simp
  have arg: "nat 1 \<le> eng_max_arguments eng" using a by simp
  from runSimulation_total [OF b a2 p _ _ arg, of env]
  show "\<exists>res. runSimulation eng env cfg = Inr res \<and>
         length (res_equityPaths res) = 1 \<and> length (res_rPaths res) = 1 \<and>
         length (res_equityPaths res ! 0) = 1 \<and> length (res_rPaths res ! 0) = 1"
    by auto
qed

theorem degenerate_counts_witness:
  "safe_count NegInfinity = Finite 1 \<and>
   runSimulation demo_engine random_low (degenerate_config\<lparr>cfg_nTrades := NegInfinity\<rparr>) =
     runSimulation demo_engine random_low (degenerate_config\<lparr>cfg_nTrades := Finite 1\<rparr>) \<and>
   runSimulation demo_engine random_low (degenerate_config\<lparr>cfg_nPaths := NegInfinity\<rparr>) =
     runSimulation demo_engine random_low (degenerate_config\<lparr>cfg_nPaths := Finite 1\<rparr>) \<and>
   cfg_nTrades degenerate_config = Finite 0 \<and> cfg_nPaths degenerate_config = NegInfinity \<and>
   cfg_buckets degenerate_config \<noteq> [] \<and> 1 \<le> eng_max_length demo_engine \<and>
   1 \<le> eng_max_arguments demo_engine \<and>
   (\<exists>res. runSimulation demo_engine random_low degenerate_config = Inr res \<and>
          length (res_equityPaths res) = 1 \<and> length (res_rPaths res) = 1 \<and>
          length (res_equityPaths res ! 0) = 1 \<and> length (res_rPaths res ! 0) = 1)"
proof -
  have b: "cfg_buckets degenerate_config \<noteq> []"
    and t: "cfg_nTrades degenerate_config = Finite 0"
    and p: "cfg_nPaths degenerate_config = NegInfinity"
    by (simp_all add: degenerate_config_def demo_config_def)
  have e: "1 \<le> eng_max_length demo_engine" "1 \<le> eng_max_arguments demo_engine"
    by (simp_all add: demo_engine_def)
  have t': "cfg_nTrades degenerate_config = NegInfinity \<or>
            (\<exists>r\<le>0. cfg_nTrades degenerate_config = Finite r)"
    using t by simp
  have p': "cfg_nPaths degenerate_config = NegInfinity \<or>
            (\<exists>r\<le>0. cfg_nPaths degenerate_config = Finite r)"
    using p by simp
  from degenerate_counts_coerced [of NegInfinity demo_engine random_low degenerate_config]
    b t p e t' p'
  show ?thesis by blast
qed

lemma sample_trade_empty: "sample_trade env [] cumProbs g = Inl TypeError"
  by (simp add: sample_trade_def array_get_def case_prod_beta Let_def)

lemma runSimulation_empty_buckets:
  assumes "cfg_buckets cfg = []"
    and "safe_count (cfg_nTrades cfg) = Finite 1" and "safe_count (cfg_nPaths cfg) = Finite 1"
    and "1 \<le> eng_max_length eng"
  shows "runSimulation eng env cfg = Inl TypeError"
proof -
  have a1: "new_Array (Finite 1) = Inr 1" by (simp add: new_Array_def)
  have a2: "new_Float64Array eng (Finite 1) = Inr 1"
    using assms(4) by (simp add: new_Float64Array_def trunc_real_def)
  have t: "trade_loop env [] progressive cumProbs (Suc 0) 0 st = Inl TypeError"
    for progressive cumProbs st
    by (simp add: trade_loop.simps [of _ _ _ _ _ 0] trade_step_def sample_trade_empty)
  have "path_step eng env cfg cumProbs (Finite 1) 0 sim = Inl TypeError" for cumProbs sim
    by (simp add: path_step_def a2 assms(1) t)
  then have "paths_loop eng env cfg cumProbs (Finite 1) 1 0 sim = Inl TypeError"
    for cumProbs sim
    by (simp add: paths_loop.simps [of _ _ _ _ _ _ 0])
  then show ?thesis
    unfolding runSimulation_def Let_def assms(2,3) a1 by simp
qed

text \<open>
  Claim C9 as stated covers the counts that are not finite. \<open>Math.max(1, Math.trunc(n))\<close>
  is \<open>NaN\<close> for \<open>NaN\<close> and \<open>Infinity\<close> for \<open>Infinity\<close>. As a path count either makes
  \<open>new Array\<close> raise a \<open>RangeError\<close>; as a trade count \<open>NaN\<close> gives every path the length 0
  and \<open>Infinity\<close> makes the allocation of the first path raise a \<open>RangeError\<close>. With an
  empty bucket list the first trade raises a \<open>TypeError\<close>, whatever the counts.
\<close>

theorem nan_counts_not_coerced:
  "cfg_nPaths nan_paths_config = NaN \<and>
   runSimulation demo_engine random_low nan_paths_config = Inl RangeError \<and>
   runSimulation demo_engine random_low (demo_config\<lparr>cfg_nPaths := PosInfinity\<rparr>) =
     Inl RangeError \<and>
   runSimulation demo_engine random_low (demo_config\<lparr>cfg_nTrades := PosInfinity\<rparr>) =
     Inl RangeError \<and>
   cfg_nTrades nan_trades_config = NaN \<and>
   safe_count (cfg_nTrades nan_trades_config) = NaN \<and>
   (\<exists>res. runSimulation demo_engine random_low nan_trades_config = Inr res \<and>
          length (res_equityPaths res) = 2 \<and> length (res_equityPaths res ! 0) = 0) \<and>
   runSimulation demo_engine random_low (degenerate_config\<lparr>cfg_buckets := []\<rparr>) =
     Inl TypeError"
proof -
  have 8: "runSimulation demo_engine random_low (degenerate_config\<lparr>cfg_buckets := []\<rparr>) =
     Inl TypeError"
    by (rule runSimulation_empty_buckets)
       (simp_all add: degenerate_config_def demo_config_def demo_engine_def safe_count_def
          trunc_real_def)
  have 1: "cfg_nPaths nan_paths_config = NaN" by (simp add: nan_paths_config_def)
  have "new_Array (safe_count (cfg_nPaths nan_paths_config)) = Inl RangeError"
    unfolding 1 by (simp add: safe_count_def new_Array_def)
  then have 2: "runSimulation demo_engine random_low nan_paths_config = Inl RangeError"
    unfolding runSimulation_def Let_def by simp
  have "new_Array (safe_count (cfg_nPaths (demo_config\<lparr>cfg_nPaths := PosInfinity\<rparr>))) =
      Inl RangeError"
    by (simp add: safe_count_def new_Array_def)
  then have 6: "runSimulation demo_engine random_low (demo_config\<lparr>cfg_nPaths := PosInfinity\<rparr>) =
     Inl RangeError"
    unfolding runSimulation_def Let_def by simp
  have "new_Array (safe_count (cfg_nPaths (demo_config\<lparr>cfg_nTrades := PosInfinity\<rparr>))) = Inr 2"
    by (simp add: safe_count_def new_Array_def demo_config_def trunc_real_def)
  moreover have "new_Float64Array demo_engine
      (safe_count (cfg_nTrades (demo_config\<lparr>cfg_nTrades := PosInfinity\<rparr>))) = Inl RangeError"
    by (simp add: safe_count_def new_Float64Array_def)
  ultimately have 7:
    "runSimulation demo_engine random_low (demo_config\<lparr>cfg_nTrades := PosInfinity\<rparr>) =
     Inl RangeError"
    unfolding runSimulation_def Let_def
    by (simp add: paths_loop_alloc_fails)
  have 3: "cfg_nTrades nan_trades_config = NaN" by (simp add: nan_trades_config_def)
  have 4: "safe_count (cfg_nTrades nan_trades_config) = NaN"
    unfolding 3 by (simp add: safe_count_def)
  have b: "cfg_buckets nan_trades_config \<noteq> []"
    by (simp add: nan_trades_config_def demo_config_def)
  have a: "new_Float64Array demo_engine (safe_count (cfg_nTrades nan_trades_config)) = Inr 0"
    unfolding 4 by (simp add: new_Float64Array_def)
  have c: "safe_count (cfg_nPaths nan_trades_config) = Finite (of_int 2)"
    by (simp add: nan_trades_config_def demo_config_def safe_count_def trunc_real_def)
  have d: "nat 2 \<le> eng_max_arguments demo_engine" by (simp add: demo_engine_def)
  from runSimulation_total [OF b a c _ _ d, of random_low]
  have 5: "\<exists>res. runSimulation demo_engine random_low nan_trades_config = Inr res \<and>
          length (res_equityPaths res) = 2 \<and> length (res_equityPaths res ! 0) = 0"
    by auto
  from 1 2 3 4 5 6 7 8 show ?thesis by blast
qed

subsection \<open>Monthly returns compound to the total return\<close>

declare monthly_loop.simps [simp del]












end
